theory Spec2Isabelle
  imports Complex_Main "HOL-Library.Word" "HOL-Library.Log_Nat"
begin

section \<open>Data model of the image weak learner\<close>

text \<open>
  \<^verbatim>\<open>pixel_type\<close>, \<^verbatim>\<open>offset_type\<close> and \<^verbatim>\<open>label_type\<close> are \<^verbatim>\<open>std::int16_t\<close>: 16-bit words read
  through \<open>sint\<close>. Arithmetic on two of them is done by C++ in \<^verbatim>\<open>int\<close> after integral
  promotion, where it cannot overflow, so sums and differences are taken on \<open>int\<close>.
  \<^verbatim>\<open>scalar_type\<close> is a binary floating-point type; every scalar that occurs below is an
  integer of magnitude below \<open>2 ^ 17\<close>, a threshold or a limit of the type, all of which
  are compared exactly, so scalars are modelled as reals.
\<close>

type_synonym pixel_type = "16 word"
type_synonym offset_type = "16 word"
type_synonym label_type = "16 word"
type_synonym scalar_type = real

text \<open>The ways in which a call can fail to return a value.\<close>

datatype failure =
    AssertionFailure
  | UndefinedBehaviour
  | InvalidArgument
  | OutOfRange
  | LengthError
  | BadAlloc

text \<open>
  \<^verbatim>\<open>Image\<close>: a data matrix and a label matrix of one shape; \<^verbatim>\<open>width()\<close> is the number of
  rows and \<^verbatim>\<open>height()\<close> the number of columns of the data matrix.
\<close>

record image =
  width :: nat
  height :: nat
  data_matrix :: "nat \<Rightarrow> nat \<Rightarrow> pixel_type"
  label_matrix :: "nat \<Rightarrow> nat \<Rightarrow> label_type"

text \<open>\<^verbatim>\<open>ImageSample\<close>: the image it points into and its two coordinates.\<close>

record image_sample =
  image_ptr :: image
  sample_x :: offset_type
  sample_y :: offset_type

definition get_label :: "image_sample \<Rightarrow> label_type" where
  "get_label sample =
     label_matrix (image_ptr sample) (nat (sint (sample_x sample))) (nat (sint (sample_y sample)))"

record image_feature =
  offset_x1 :: offset_type
  offset_y1 :: offset_type
  offset_x2 :: offset_type
  offset_y2 :: offset_type

record image_split_point =
  sp_offset_x1 :: offset_type
  sp_offset_y1 :: offset_type
  sp_offset_x2 :: offset_type
  sp_offset_y2 :: offset_type
  sp_threshold :: scalar_type

datatype Direction = LEFT | RIGHT

subsection \<open>Pixel reads and feature values\<close>

text \<open>
  \<^verbatim>\<open>compute_pixel_value\<close>, a member of \<^verbatim>\<open>ImageFeature\<close> and, with the same body, of
  \<^verbatim>\<open>ImageSplitPoint\<close>.
\<close>

definition compute_pixel_value :: "image_sample \<Rightarrow> offset_type \<Rightarrow> offset_type \<Rightarrow> pixel_type" where
  "compute_pixel_value sample offset_x offset_y =
     (let image = image_ptr sample;
          x = sint (sample_x sample);
          y = sint (sample_y sample)
      in if x + sint offset_x < 0 \<or> x + sint offset_x \<ge> int (width image)
            \<or> y + sint offset_y < 0 \<or> y + sint offset_y \<ge> int (height image)
         then 0
         else data_matrix image (nat (x + sint offset_x)) (nat (y + sint offset_y)))"

text \<open>\<^verbatim>\<open>ImageFeature::compute_pixel_difference\<close>, returned as a scalar.\<close>

definition compute_pixel_difference :: "image_feature \<Rightarrow> image_sample \<Rightarrow> scalar_type" where
  "compute_pixel_difference feature sample =
     (let pixel1_value = compute_pixel_value sample (offset_x1 feature) (offset_y1 feature);
          pixel2_value = compute_pixel_value sample (offset_x2 feature) (offset_y2 feature)
      in real_of_int (sint pixel1_value - sint pixel2_value))"

text \<open>\<^verbatim>\<open>ImageThreshold::left_direction\<close>.\<close>

definition left_direction :: "scalar_type \<Rightarrow> scalar_type \<Rightarrow> bool" where
  "left_direction threshold v = (v < threshold)"

text \<open>\<^verbatim>\<open>ImageSplitPoint::compute_pixel_difference\<close> (private), returned as a scalar.\<close>

definition sp_compute_pixel_difference :: "image_split_point \<Rightarrow> image_sample \<Rightarrow> scalar_type" where
  "sp_compute_pixel_difference sp sample =
     (let pixel1_value = compute_pixel_value sample (sp_offset_x1 sp) (sp_offset_y1 sp);
          pixel2_value = compute_pixel_value sample (sp_offset_x2 sp) (sp_offset_y2 sp)
      in real_of_int (sint pixel1_value - sint pixel2_value))"

text \<open>
  The conversion of a scalar to \<^verbatim>\<open>PixelT\<close> in
  \<^verbatim>\<open>PixelT pixel_difference = compute_pixel_difference(sample)\<close>: the value is truncated
  towards zero, and the conversion is undefined when the truncated value is not
  representable in 16 bits.
\<close>

definition pixel_of_scalar :: "scalar_type \<Rightarrow> pixel_type option" where
  "pixel_of_scalar v =
     (let z = (if 0 \<le> v then \<lfloor>v\<rfloor> else \<lceil>v\<rceil>)
      in if - 32768 \<le> z \<and> z \<le> 32767 then Some (word_of_int z) else None)"

text \<open>\<^verbatim>\<open>ImageSplitPoint::evaluate(PixelT value)\<close>.\<close>

definition evaluate_value :: "image_split_point \<Rightarrow> pixel_type \<Rightarrow> Direction" where
  "evaluate_value sp v =
     (if real_of_int (sint v) < sp_threshold sp then LEFT else RIGHT)"

text \<open>
  \<^verbatim>\<open>ImageSplitPoint::evaluate(const ImageSample&)\<close>; \<open>None\<close> is the undefined conversion.
\<close>

definition evaluate :: "image_split_point \<Rightarrow> image_sample \<Rightarrow> Direction option" where
  "evaluate sp sample =
     (case pixel_of_scalar (sp_compute_pixel_difference sp sample) of
        None \<Rightarrow> None
      | Some pixel_difference \<Rightarrow> Some (evaluate_value sp pixel_difference))"

text \<open>
  The value \<open>P(x + ox, y + oy)\<close> of the split-point definition: the data pixel at the
  shifted position, and 0 outside \<open>[0, width) \<times> [0, height)\<close>.
\<close>

definition padded_pixel :: "image \<Rightarrow> int \<Rightarrow> int \<Rightarrow> int" where
  "padded_pixel img px py =
     (if 0 \<le> px \<and> px < int (width img) \<and> 0 \<le> py \<and> py < int (height img)
      then sint (data_matrix img (nat px) (nat py)) else 0)"

text \<open>An image of two pixels in a row, holding 32767 and -1, and a sample on the first.\<close>

definition overflow_image :: image where
  "overflow_image =
     \<lparr>width = 2, height = 1,
      data_matrix = (\<lambda>x y. if x = 0 then 32767 else - 1),
      label_matrix = (\<lambda>x y. 0)\<rparr>"

definition overflow_sample :: image_sample where
  "overflow_sample = \<lparr>image_ptr = overflow_image, sample_x = 0, sample_y = 0\<rparr>"

definition overflow_split_point :: image_split_point where
  "overflow_split_point =
     \<lparr>sp_offset_x1 = 0, sp_offset_y1 = 0, sp_offset_x2 = 1, sp_offset_y2 = 0, sp_threshold = 0\<rparr>"

subsection \<open>Statistics and split statistics\<close>

text \<open>
  The weak learner is a template over the statistics type. Its operations that the
  weak learner calls are passed as a record: \<^verbatim>\<open>statistics_factory_.create()\<close>,
  \<^verbatim>\<open>accumulate\<close>, \<^verbatim>\<open>lazy_accumulate\<close> and \<^verbatim>\<open>finish_lazy_accumulation\<close>.
\<close>

record 'st statistics_type =
  create :: 'st
  accumulate :: "image_sample \<Rightarrow> 'st \<Rightarrow> 'st"
  lazy_accumulate :: "image_sample \<Rightarrow> 'st \<Rightarrow> 'st"
  finish_lazy_accumulation :: "'st \<Rightarrow> 'st"

text \<open>
  Modelled from the spec: the histogram statistics (\<^verbatim>\<open>histogram_statistics.h\<close> is not
  among the sources). A class-label histogram and a sample count; \<^verbatim>\<open>lazy_accumulate\<close>
  collects a local delta and \<^verbatim>\<open>finish_lazy_accumulation\<close> flushes it once, with the
  same observable result (histogram and count) as \<^verbatim>\<open>accumulate\<close> on each sample.
\<close>

record histogram_statistics =
  histogram :: "label_type \<Rightarrow> nat"
  num_of_samples :: nat
  lazy_delta :: "label_type list"

definition histogram_create :: histogram_statistics where
  "histogram_create = \<lparr>histogram = (\<lambda>label. 0), num_of_samples = 0, lazy_delta = []\<rparr>"

definition accumulate_label :: "label_type \<Rightarrow> histogram_statistics \<Rightarrow> histogram_statistics" where
  "accumulate_label label st =
     st\<lparr>histogram := (histogram st)(label := Suc (histogram st label)),
        num_of_samples := Suc (num_of_samples st)\<rparr>"

definition histogram_accumulate :: "image_sample \<Rightarrow> histogram_statistics \<Rightarrow> histogram_statistics" where
  "histogram_accumulate sample st = accumulate_label (get_label sample) st"

definition histogram_lazy_accumulate :: "image_sample \<Rightarrow> histogram_statistics \<Rightarrow> histogram_statistics" where
  "histogram_lazy_accumulate sample st = st\<lparr>lazy_delta := lazy_delta st @ [get_label sample]\<rparr>"

definition histogram_finish_lazy_accumulation :: "histogram_statistics \<Rightarrow> histogram_statistics" where
  "histogram_finish_lazy_accumulation st =
     (fold accumulate_label (lazy_delta st) st)\<lparr>lazy_delta := []\<rparr>"

definition histogram_statistics_type :: "histogram_statistics statistics_type" where
  "histogram_statistics_type =
     \<lparr>create = histogram_create,
      accumulate = histogram_accumulate,
      lazy_accumulate = histogram_lazy_accumulate,
      finish_lazy_accumulation = histogram_finish_lazy_accumulation\<rparr>"

text \<open>
  Modelled from the spec: \<^verbatim>\<open>SplitStatistics\<close> (\<^verbatim>\<open>weak_learner.h\<close> is not among the
  sources): two parallel arrays of statistics, created with one fresh statistics per
  candidate. \<^verbatim>\<open>get_left_statistics(k)\<close> and \<^verbatim>\<open>get_right_statistics(k)\<close> give access to
  entry \<open>k\<close>; an index outside the arrays is a failure.
\<close>

record 'st split_statistics =
  left_statistics :: "'st list"
  right_statistics :: "'st list"

definition new_split_statistics :: "nat \<Rightarrow> 'st statistics_type \<Rightarrow> 'st split_statistics" where
  "new_split_statistics n S =
     \<lparr>left_statistics = replicate n (create S), right_statistics = replicate n (create S)\<rparr>"

definition update_left_statistics ::
  "nat \<Rightarrow> ('st \<Rightarrow> 'st) \<Rightarrow> 'st split_statistics \<Rightarrow> failure + 'st split_statistics" where
  "update_left_statistics k f ss =
     (if k < length (left_statistics ss)
      then Inr (ss\<lparr>left_statistics := (left_statistics ss)[k := f (left_statistics ss ! k)]\<rparr>)
      else Inl OutOfRange)"

definition update_right_statistics ::
  "nat \<Rightarrow> ('st \<Rightarrow> 'st) \<Rightarrow> 'st split_statistics \<Rightarrow> failure + 'st split_statistics" where
  "update_right_statistics k f ss =
     (if k < length (right_statistics ss)
      then Inr (ss\<lparr>right_statistics := (right_statistics ss)[k := f (right_statistics ss ! k)]\<rparr>)
      else Inl OutOfRange)"

subsection \<open>Candidate sets\<close>

text \<open>
  \<^verbatim>\<open>ImageSplitPointCandidates\<close>: the list of features, each with its thresholds, and the
  running total of thresholds.
\<close>

record image_split_point_candidates =
  candidates :: "(image_feature \<times> scalar_type list) list"
  total_size :: nat

definition empty_candidates :: image_split_point_candidates where
  "empty_candidates = \<lparr>candidates = [], total_size = 0\<rparr>"

definition add_feature_and_thresholds ::
  "image_feature \<Rightarrow> scalar_type list \<Rightarrow> image_split_point_candidates \<Rightarrow> image_split_point_candidates" where
  "add_feature_and_thresholds feature thresholds c =
     \<lparr>candidates = candidates c @ [(feature, thresholds)],
      total_size = total_size c + length thresholds\<rparr>"

subsection \<open>Accumulation of split statistics\<close>

text \<open>
  \<^verbatim>\<open>_compute_split_statistics\<close>, first loop, inner part: one sample with feature value
  \<open>v\<close> is routed at every threshold, the statistics index counting up from the offset.
\<close>

fun accumulate_thresholds ::
  "'st statistics_type \<Rightarrow> image_sample \<Rightarrow> scalar_type \<Rightarrow> scalar_type list \<Rightarrow> nat
    \<Rightarrow> 'st split_statistics \<Rightarrow> failure + 'st split_statistics" where
  "accumulate_thresholds S sample v [] statistics_index ss = Inr ss"
| "accumulate_thresholds S sample v (threshold # thresholds) statistics_index ss =
     (case (if left_direction threshold v
            then update_left_statistics statistics_index (lazy_accumulate S sample) ss
            else update_right_statistics statistics_index (lazy_accumulate S sample) ss) of
        Inl e \<Rightarrow> Inl e
      | Inr ss' \<Rightarrow> accumulate_thresholds S sample v thresholds (Suc statistics_index) ss')"

text \<open>\<^verbatim>\<open>_compute_split_statistics\<close>, first loop: all samples in order.\<close>

fun accumulate_samples ::
  "'st statistics_type \<Rightarrow> image_sample list \<Rightarrow> nat \<Rightarrow> image_feature \<Rightarrow> scalar_type list
    \<Rightarrow> 'st split_statistics \<Rightarrow> failure + 'st split_statistics" where
  "accumulate_samples S [] statistics_index_offset feature thresholds ss = Inr ss"
| "accumulate_samples S (sample # samples) statistics_index_offset feature thresholds ss =
     (case accumulate_thresholds S sample (compute_pixel_difference feature sample) thresholds
             statistics_index_offset ss of
        Inl e \<Rightarrow> Inl e
      | Inr ss' \<Rightarrow> accumulate_samples S samples statistics_index_offset feature thresholds ss')"

text \<open>
  \<^verbatim>\<open>_compute_split_statistics\<close>, second loop: one round per threshold; each round sets
  \<^verbatim>\<open>statistics_index\<close> to the offset anew, finishes the left and the right statistics
  at that index, and increments the round's own copy of the index.
\<close>

fun finish_thresholds ::
  "'st statistics_type \<Rightarrow> scalar_type list \<Rightarrow> nat \<Rightarrow> 'st split_statistics
    \<Rightarrow> failure + 'st split_statistics" where
  "finish_thresholds S [] statistics_index_offset ss = Inr ss"
| "finish_thresholds S (threshold # thresholds) statistics_index_offset ss =
     (let statistics_index = statistics_index_offset in
      case update_left_statistics statistics_index (finish_lazy_accumulation S) ss of
        Inl e \<Rightarrow> Inl e
      | Inr ss1 \<Rightarrow>
          (case update_right_statistics statistics_index (finish_lazy_accumulation S) ss1 of
             Inl e \<Rightarrow> Inl e
           | Inr ss2 \<Rightarrow> finish_thresholds S thresholds statistics_index_offset ss2))"

text \<open>\<^verbatim>\<open>_compute_split_statistics\<close>.\<close>

definition compute_split_statistics_feature ::
  "'st statistics_type \<Rightarrow> image_sample list \<Rightarrow> 'st split_statistics \<Rightarrow> nat \<Rightarrow> image_feature
    \<Rightarrow> scalar_type list \<Rightarrow> failure + 'st split_statistics" where
  "compute_split_statistics_feature S samples ss statistics_index_offset feature thresholds =
     (case accumulate_samples S samples statistics_index_offset feature thresholds ss of
        Inl e \<Rightarrow> Inl e
      | Inr ss' \<Rightarrow> finish_thresholds S thresholds statistics_index_offset ss')"

text \<open>
  The loop of \<^verbatim>\<open>compute_split_statistics\<close> over the candidate features; \<open>i\<close> is
  \<^verbatim>\<open>it - split_points.cbegin()\<close>.
\<close>

fun compute_split_statistics_loop ::
  "'st statistics_type \<Rightarrow> image_sample list \<Rightarrow> (image_feature \<times> scalar_type list) list \<Rightarrow> nat
    \<Rightarrow> 'st split_statistics \<Rightarrow> failure + 'st split_statistics" where
  "compute_split_statistics_loop S samples [] i ss = Inr ss"
| "compute_split_statistics_loop S samples ((feature, thresholds) # rest) i ss =
     (let statistics_index_offset = i * length thresholds in
      case compute_split_statistics_feature S samples ss statistics_index_offset feature thresholds of
        Inl e \<Rightarrow> Inl e
      | Inr ss' \<Rightarrow> compute_split_statistics_loop S samples rest (Suc i) ss')"

text \<open>\<^verbatim>\<open>compute_split_statistics\<close>.\<close>

definition compute_split_statistics ::
  "'st statistics_type \<Rightarrow> image_sample list \<Rightarrow> image_split_point_candidates
    \<Rightarrow> failure + 'st split_statistics" where
  "compute_split_statistics S samples split_points =
     compute_split_statistics_loop S samples (candidates split_points) 0
       (new_split_statistics (total_size split_points) S)"

text \<open>
  The statistics the serial contract describes, in its words: every sample is routed at
  every candidate \<open>k\<close> of the flattened list into \<open>left[k]\<close> or \<open>right[k]\<close>, by
  \<^verbatim>\<open>accumulate\<close> at once.
\<close>

definition flattened_candidates ::
  "image_split_point_candidates \<Rightarrow> (image_feature \<times> scalar_type) list" where
  "flattened_candidates split_points =
     concat (map (\<lambda>(feature, thresholds). map (Pair feature) thresholds) (candidates split_points))"

definition immediate_split_statistics ::
  "'st statistics_type \<Rightarrow> image_sample list \<Rightarrow> image_split_point_candidates \<Rightarrow> 'st split_statistics" where
  "immediate_split_statistics S samples split_points =
     \<lparr>left_statistics =
        map (\<lambda>(feature, threshold).
               fold (accumulate S)
                 (filter (\<lambda>sample. left_direction threshold (compute_pixel_difference feature sample)) samples)
                 (create S))
          (flattened_candidates split_points),
      right_statistics =
        map (\<lambda>(feature, threshold).
               fold (accumulate S)
                 (filter (\<lambda>sample. \<not> left_direction threshold (compute_pixel_difference feature sample)) samples)
                 (create S))
          (flattened_candidates split_points)\<rparr>"

text \<open>
  One image of a single pixel with data 0 and label 5, the sample on it, and one feature
  with the two thresholds of binary images.
\<close>

definition one_pixel_image :: image where
  "one_pixel_image =
     \<lparr>width = 1, height = 1, data_matrix = (\<lambda>x y. 0), label_matrix = (\<lambda>x y. 5)\<rparr>"

definition one_pixel_sample :: image_sample where
  "one_pixel_sample = \<lparr>image_ptr = one_pixel_image, sample_x = 0, sample_y = 0\<rparr>"

definition zero_feature :: image_feature where
  "zero_feature = \<lparr>offset_x1 = 0, offset_y1 = 0, offset_x2 = 0, offset_y2 = 0\<rparr>"

definition binary_candidates :: image_split_point_candidates where
  "binary_candidates = add_feature_and_thresholds zero_feature [- (1 / 2), 1 / 2] empty_candidates"

subsection \<open>Random engine and distributions\<close>

text \<open>
  The random engine is a template parameter; the standard library's distributions are
  not part of the sources. An engine is the sequence of raw outputs it will still
  produce. A distribution takes one output of the engine: \<^verbatim>\<open>uniform_int_distribution(a, b)\<close>
  maps it into \<open>[a, b]\<close>, \<^verbatim>\<open>uniform_real_distribution(a, b)\<close> into \<open>[a, b)\<close>. Only the range
  of a draw and the fact that it advances the engine are used below.
\<close>

type_synonym random_engine = "nat \<Rightarrow> nat"

definition advance :: "random_engine \<Rightarrow> random_engine" where
  "advance rnd_engine = (\<lambda>i. rnd_engine (Suc i))"

definition uniform_int_distribution :: "int \<Rightarrow> int \<Rightarrow> random_engine \<Rightarrow> int \<times> random_engine" where
  "uniform_int_distribution a b rnd_engine =
     (a + int (rnd_engine 0 mod nat (b - a + 1)), advance rnd_engine)"

definition uniform_real_distribution ::
  "scalar_type \<Rightarrow> scalar_type \<Rightarrow> random_engine \<Rightarrow> scalar_type \<times> random_engine" where
  "uniform_real_distribution a b rnd_engine =
     (a + (b - a) * (real (rnd_engine 0 mod 2 ^ 53) / 2 ^ 53), advance rnd_engine)"

subsection \<open>Parameters\<close>

text \<open>
  The two fractions of \<^verbatim>\<open>ImageSampleParameters\<close> are of type \<^verbatim>\<open>double\<close>, and the products
  taken with them are products of doubles. A finite double is given by a significand
  \<open>m\<close> and an exponent \<open>e\<close> and stands for \<open>m * 2 ^ e\<close>, with \<open>\<bar>m\<bar> < 2 ^ 53\<close> and
  \<open>e \<ge> - 1074\<close>.
\<close>

type_synonym double = "int \<times> int"

definition double_value :: "double \<Rightarrow> real" where
  "double_value d = real_of_int (fst d) * 2 powi (snd d)"

text \<open>
  The quotient of \<open>m\<close> by \<open>2 ^ k\<close>, rounded to the nearest integer, a tie to the even one.
\<close>

definition round_shift :: "int \<Rightarrow> nat \<Rightarrow> int" where
  "round_shift m k =
     (let q = m div 2 ^ k; r = m mod 2 ^ k
      in if 2 * r > 2 ^ k \<or> (2 * r = 2 ^ k \<and> odd q) then q + 1 else q)"

text \<open>
  The double nearest to \<open>m * 2 ^ e\<close> (round to nearest, ties to even, the rounding mode
  in force by default): the significand is cut to 53 bits, or to fewer where the
  exponent would fall below that of the subnormal numbers. A result of magnitude
  \<open>2 ^ 1024\<close> or more stands for an infinity.
\<close>

definition round_to_double :: "int \<Rightarrow> int \<Rightarrow> double" where
  "round_to_double m e =
     (let k = max (bitlen \<bar>m\<bar> - 53) (- 1074 - e)
      in if k \<le> 0 then (m, e) else (round_shift m (nat k), e + k))"

definition double_finite :: "double \<Rightarrow> bool" where
  "double_finite d = (\<bar>double_value d\<bar> < 2 ^ 1024)"

text \<open>The conversion of a \<^verbatim>\<open>size_type\<close> value to \<^verbatim>\<open>double\<close>, and the product of two doubles.\<close>

definition double_of_nat :: "nat \<Rightarrow> double" where
  "double_of_nat n = round_to_double (int n) 0"

definition double_mult :: "double \<Rightarrow> double \<Rightarrow> double" where
  "double_mult a b = round_to_double (fst a * fst b) (snd a + snd b)"

text \<open>
  \<^verbatim>\<open>ImageSampleParameters\<close> and its extension \<^verbatim>\<open>ImageWeakLearnerParameters\<close>. The two counts
  are read by loops that count upwards from 0, and are modelled as natural numbers.
\<close>

record image_sample_parameters =
  bagging_fraction :: double
  samples_per_image_fraction :: double
  background_label :: label_type

record image_weak_learner_parameters = image_sample_parameters +
  num_of_features :: nat
  num_of_thresholds :: nat
  feature_offset_x_range_low :: offset_type
  feature_offset_x_range_high :: offset_type
  feature_offset_y_range_low :: offset_type
  feature_offset_y_range_high :: offset_type
  threshold_range_low :: scalar_type
  threshold_range_high :: scalar_type
  adaptive_threshold_range :: bool
  binary_images :: bool

subsection \<open>Sampling of split point candidates\<close>

text \<open>
  Modelled from the spec: \<^verbatim>\<open>scalar_type\<close> (\<^verbatim>\<open>ait.h\<close> is not among the sources) is the
  floating-point type of thresholds, taken as IEEE double precision:
  \<^verbatim>\<open>std::numeric_limits<scalar_type>::max()\<close> is the largest finite value and
  \<^verbatim>\<open>std::numeric_limits<scalar_type>::min()\<close> is the smallest positive normal value.
\<close>

definition scalar_limits_max :: scalar_type where
  "scalar_limits_max = (2 - 1 / 2 ^ 52) * 2 ^ 1023"

definition scalar_limits_min :: scalar_type where
  "scalar_limits_min = 1 / 2 ^ 1022"

text \<open>The loop of \<^verbatim>\<open>compute_adaptive_threshold_range\<close> over the samples.\<close>

fun adaptive_range_loop ::
  "image_feature \<Rightarrow> image_sample list \<Rightarrow> scalar_type \<Rightarrow> scalar_type \<Rightarrow> scalar_type \<times> scalar_type" where
  "adaptive_range_loop feature [] min_value max_value = (min_value, max_value)"
| "adaptive_range_loop feature (sample # samples) min_value max_value =
     (let v = compute_pixel_difference feature sample;
          min_value' = (if v < min_value then v else min_value);
          max_value' = (if v > max_value then v else max_value)
      in adaptive_range_loop feature samples min_value' max_value')"

text \<open>
  \<^verbatim>\<open>compute_adaptive_threshold_range\<close>; the pair is
  \<^verbatim>\<open>(*threshold_range_low, *threshold_range_high)\<close>.
\<close>

definition compute_adaptive_threshold_range ::
  "image_sample list \<Rightarrow> image_feature \<Rightarrow> scalar_type \<times> scalar_type" where
  "compute_adaptive_threshold_range samples feature =
     (case adaptive_range_loop feature samples scalar_limits_max scalar_limits_min of
        (min_value, max_value) \<Rightarrow>
          if min_value \<ge> max_value then (0, 0) else (min_value, max_value))"

text \<open>
  The offset pools of \<^verbatim>\<open>sample_split_points\<close>: for every offset from low to high, its
  negation and itself. The loop counter is an \<^verbatim>\<open>offset_type\<close>: with the high end at
  32767 the loop condition never fails, and the pool grows until memory is exhausted.
\<close>

definition offset_pool :: "offset_type \<Rightarrow> offset_type \<Rightarrow> failure + offset_type list" where
  "offset_pool range_low range_high =
     (if sint range_low \<le> sint range_high \<and> sint range_high = 32767 then Inl BadAlloc
      else Inr (concat (map (\<lambda>offset. [- word_of_int offset, word_of_int offset])
                          [sint range_low..sint range_high])))"

text \<open>
  A draw from a pool through \<^verbatim>\<open>uniform_int_distribution<offset_type>(0, size - 1)\<close>. The
  upper bound \<open>size - 1\<close> is narrowed to \<^verbatim>\<open>offset_type\<close>, which keeps its low 16 bits
  (for the empty pool it is -1). A negative bound is undefined for the distribution;
  a bound that is not negative is below the size of the pool.
\<close>

definition draw_offset :: "offset_type list \<Rightarrow> random_engine \<Rightarrow> failure + (offset_type \<times> random_engine)" where
  "draw_offset offsets rnd_engine =
     (let bound = sint (word_of_int (int (length offsets) - 1) :: offset_type)
      in if bound < 0 then Inl UndefinedBehaviour
         else (case uniform_int_distribution 0 bound rnd_engine of
                 (i, rnd_engine') \<Rightarrow> Inr (offsets ! nat i, rnd_engine')))"

text \<open>The four draws that make a feature, in the order of the source.\<close>

definition draw_feature ::
  "offset_type list \<Rightarrow> offset_type list \<Rightarrow> random_engine \<Rightarrow> failure + (image_feature \<times> random_engine)" where
  "draw_feature offsets_x offsets_y rnd_engine =
     (case draw_offset offsets_x rnd_engine of Inl e \<Rightarrow> Inl e | Inr (ox1, rnd1) \<Rightarrow>
      case draw_offset offsets_y rnd1 of Inl e \<Rightarrow> Inl e | Inr (oy1, rnd2) \<Rightarrow>
      case draw_offset offsets_x rnd2 of Inl e \<Rightarrow> Inl e | Inr (ox2, rnd3) \<Rightarrow>
      case draw_offset offsets_y rnd3 of Inl e \<Rightarrow> Inl e | Inr (oy2, rnd4) \<Rightarrow>
        Inr (\<lparr>offset_x1 = ox1, offset_y1 = oy1, offset_x2 = ox2, offset_y2 = oy2\<rparr>, rnd4))"

text \<open>The loop that draws \<^verbatim>\<open>num_of_thresholds\<close> thresholds from one distribution.\<close>

fun draw_thresholds ::
  "nat \<Rightarrow> scalar_type \<Rightarrow> scalar_type \<Rightarrow> random_engine \<Rightarrow> scalar_type list \<times> random_engine" where
  "draw_thresholds 0 range_low range_high rnd_engine = ([], rnd_engine)"
| "draw_thresholds (Suc n) range_low range_high rnd_engine =
     (case uniform_real_distribution range_low range_high rnd_engine of
        (threshold, rnd1) \<Rightarrow>
          (case draw_thresholds n range_low range_high rnd1 of
             (thresholds, rnd2) \<Rightarrow> (threshold # thresholds, rnd2)))"

text \<open>
  The thresholds of one feature. The threshold range is a pair of local variables of
  \<^verbatim>\<open>sample_split_points\<close> that the adaptive computation overwrites; the range in use is
  returned with the thresholds. A real distribution whose lower bound exceeds its upper
  bound is undefined.
\<close>

definition feature_thresholds ::
  "image_weak_learner_parameters \<Rightarrow> image_sample list \<Rightarrow> image_feature \<Rightarrow> scalar_type \<times> scalar_type
    \<Rightarrow> random_engine \<Rightarrow> failure + (scalar_type list \<times> (scalar_type \<times> scalar_type) \<times> random_engine)" where
  "feature_thresholds parameters samples feature threshold_range rnd_engine =
     (if binary_images parameters then Inr ([- (1 / 2), 1 / 2], threshold_range, rnd_engine)
      else
        (case (if adaptive_threshold_range parameters
               then compute_adaptive_threshold_range samples feature
               else threshold_range) of
           (range_low, range_high) \<Rightarrow>
             if range_low \<le> range_high
             then (case draw_thresholds (num_of_thresholds parameters) range_low range_high rnd_engine of
                     (thresholds, rnd_engine') \<Rightarrow> Inr (thresholds, (range_low, range_high), rnd_engine'))
             else Inl UndefinedBehaviour))"

text \<open>The loop of \<^verbatim>\<open>sample_split_points\<close> over the features still to draw.\<close>

fun sample_features ::
  "image_weak_learner_parameters \<Rightarrow> image_sample list \<Rightarrow> offset_type list \<Rightarrow> offset_type list
    \<Rightarrow> nat \<Rightarrow> scalar_type \<times> scalar_type \<Rightarrow> image_split_point_candidates \<Rightarrow> random_engine
    \<Rightarrow> failure + (image_split_point_candidates \<times> random_engine)" where
  "sample_features parameters samples offsets_x offsets_y 0 threshold_range split_points rnd_engine =
     Inr (split_points, rnd_engine)"
| "sample_features parameters samples offsets_x offsets_y (Suc n) threshold_range split_points rnd_engine =
     (case draw_feature offsets_x offsets_y rnd_engine of
        Inl e \<Rightarrow> Inl e
      | Inr (feature, rnd1) \<Rightarrow>
          (case feature_thresholds parameters samples feature threshold_range rnd1 of
             Inl e \<Rightarrow> Inl e
           | Inr (thresholds, threshold_range', rnd2) \<Rightarrow>
               sample_features parameters samples offsets_x offsets_y n threshold_range'
                 (add_feature_and_thresholds feature thresholds split_points) rnd2))"

text \<open>\<^verbatim>\<open>sample_split_points\<close>.\<close>

definition sample_split_points ::
  "image_weak_learner_parameters \<Rightarrow> image_sample list \<Rightarrow> random_engine
    \<Rightarrow> failure + (image_split_point_candidates \<times> random_engine)" where
  "sample_split_points parameters samples rnd_engine =
     (case offset_pool (feature_offset_x_range_low parameters) (feature_offset_x_range_high parameters) of
        Inl e \<Rightarrow> Inl e
      | Inr offsets_x \<Rightarrow>
          (case offset_pool (feature_offset_y_range_low parameters) (feature_offset_y_range_high parameters) of
             Inl e \<Rightarrow> Inl e
           | Inr offsets_y \<Rightarrow>
               sample_features parameters samples offsets_x offsets_y (num_of_features parameters)
                 (threshold_range_low parameters, threshold_range_high parameters)
                 empty_candidates rnd_engine))"

subsection \<open>Looking up a candidate by its flattened index\<close>

definition make_split_point :: "image_feature \<Rightarrow> scalar_type \<Rightarrow> image_split_point" where
  "make_split_point feature threshold =
     \<lparr>sp_offset_x1 = offset_x1 feature, sp_offset_y1 = offset_y1 feature,
      sp_offset_x2 = offset_x2 feature, sp_offset_y2 = offset_y2 feature,
      sp_threshold = threshold\<rparr>"

text \<open>
  The inner loop of \<^verbatim>\<open>get_split_point\<close> over the thresholds of one feature: the split
  point when the counter \<open>i\<close> reaches the index, and otherwise the counter after the
  feature.
\<close>

fun get_split_point_thresholds ::
  "image_feature \<Rightarrow> scalar_type list \<Rightarrow> nat \<Rightarrow> nat \<Rightarrow> image_split_point + nat" where
  "get_split_point_thresholds feature [] i index = Inr i"
| "get_split_point_thresholds feature (threshold # thresholds) i index =
     (if i = index then Inl (make_split_point feature threshold)
      else get_split_point_thresholds feature thresholds (Suc i) index)"

text \<open>The outer loop of \<^verbatim>\<open>get_split_point\<close>, and the throw that follows it.\<close>

fun get_split_point_loop ::
  "(image_feature \<times> scalar_type list) list \<Rightarrow> nat \<Rightarrow> nat \<Rightarrow> failure + image_split_point" where
  "get_split_point_loop [] i index = Inl InvalidArgument"
| "get_split_point_loop ((feature, thresholds) # rest) i index =
     (case get_split_point_thresholds feature thresholds i index of
        Inl split_point \<Rightarrow> Inr split_point
      | Inr i' \<Rightarrow> get_split_point_loop rest i' index)"

text \<open>
  \<^verbatim>\<open>get_split_point\<close>. The flag tells whether assertions are compiled in (no \<^verbatim>\<open>NDEBUG\<close>).
\<close>

definition get_split_point :: "bool \<Rightarrow> image_split_point_candidates \<Rightarrow> nat \<Rightarrow> failure + image_split_point" where
  "get_split_point assertions split_points index =
     (if assertions \<and> \<not> index < total_size split_points then Inl AssertionFailure
      else get_split_point_loop (candidates split_points) 0 index)"

text \<open>
  An image of two pixels in a row holding 0 and 3, the sample on the first pixel, and
  the feature that subtracts the right neighbour: its value on the sample is -3.
\<close>

definition step_image :: image where
  "step_image =
     \<lparr>width = 2, height = 1,
      data_matrix = (\<lambda>x y. if x = 0 then 0 else 3),
      label_matrix = (\<lambda>x y. 0)\<rparr>"

definition step_sample :: image_sample where
  "step_sample = \<lparr>image_ptr = step_image, sample_x = 0, sample_y = 0\<rparr>"

definition neighbour_feature :: image_feature where
  "neighbour_feature = \<lparr>offset_x1 = 0, offset_y1 = 0, offset_x2 = 1, offset_y2 = 0\<rparr>"

text \<open>
  Parameters with adaptive threshold ranges: one feature, two thresholds, x offsets
  from 0 to 1, y offset 0; and an engine whose third output is 3 and all others 0, which
  draws the neighbour feature.
\<close>

definition adaptive_parameters :: image_weak_learner_parameters where
  "adaptive_parameters =
     \<lparr>bagging_fraction = (1, 0), samples_per_image_fraction = (1, 0), background_label = 32767,
      num_of_features = 1, num_of_thresholds = 2,
      feature_offset_x_range_low = 0, feature_offset_x_range_high = 1,
      feature_offset_y_range_low = 0, feature_offset_y_range_high = 0,
      threshold_range_low = - 300, threshold_range_high = 300,
      adaptive_threshold_range = True, binary_images = False\<rparr>"

definition neighbour_engine :: random_engine where
  "neighbour_engine = (\<lambda>i. if i = 2 then 3 else 0)"

text \<open>The number of thresholds \<^verbatim>\<open>sample_split_points\<close> gives to every feature.\<close>

definition thresholds_per_feature :: "image_weak_learner_parameters \<Rightarrow> nat" where
  "thresholds_per_feature parameters =
     (if binary_images parameters then 2 else num_of_thresholds parameters)"

text \<open>The sum of the threshold-list lengths of the first \<open>j\<close> features of a candidate list.\<close>

definition prior_thresholds :: "(image_feature \<times> scalar_type list) list \<Rightarrow> nat \<Rightarrow> nat" where
  "prior_thresholds cs j = sum_list (map (\<lambda>c. length (snd c)) (take j cs))"

text \<open>
  The accumulation over a candidate list in the flattened indexing of
  \<^verbatim>\<open>get_split_point\<close>: the statistics of a feature start at the counter \<open>k\<close> of the
  flattened list, which every feature moves on by the length of its threshold list.
\<close>

fun accumulate_flattened ::
  "'st statistics_type \<Rightarrow> image_sample list \<Rightarrow> (image_feature \<times> scalar_type list) list \<Rightarrow> nat
    \<Rightarrow> 'st split_statistics \<Rightarrow> failure + 'st split_statistics" where
  "accumulate_flattened S samples [] k ss = Inr ss"
| "accumulate_flattened S samples ((feature, thresholds) # rest) k ss =
     (case compute_split_statistics_feature S samples ss k feature thresholds of
        Inl e \<Rightarrow> Inl e
      | Inr ss' \<Rightarrow> accumulate_flattened S samples rest (k + length thresholds) ss')"

text \<open>
  Parameters for binary images with two features, and the candidate set they give with
  the engine above: the neighbour feature and the feature of offsets 0, each with the
  thresholds -0.5 and 0.5.
\<close>

definition binary_parameters :: image_weak_learner_parameters where
  "binary_parameters =
     \<lparr>bagging_fraction = (1, 0), samples_per_image_fraction = (1, 0), background_label = 32767,
      num_of_features = 2, num_of_thresholds = 5,
      feature_offset_x_range_low = 0, feature_offset_x_range_high = 1,
      feature_offset_y_range_low = 0, feature_offset_y_range_high = 0,
      threshold_range_low = - 300, threshold_range_high = 300,
      adaptive_threshold_range = False, binary_images = True\<rparr>"

definition binary_split_points :: image_split_point_candidates where
  "binary_split_points =
     \<lparr>candidates = [(neighbour_feature, [- (1 / 2), 1 / 2]),
                     (zero_feature, [- (1 / 2), 1 / 2])],
      total_size = 4\<rparr>"

subsection \<open>Image providers\<close>

text \<open>
  \<^verbatim>\<open>ImageProvider\<close>: the number of images and the virtual \<^verbatim>\<open>get_image\<close>, which may fail.
\<close>

record image_provider =
  num_of_images :: nat
  get_image :: "nat \<Rightarrow> failure + image"

text \<open>
  \<^verbatim>\<open>MemoryImageProvider::get_image\<close>: an assertion on the index, then the unchecked read
  \<^verbatim>\<open>images_[image_index]\<close>. The flag tells whether assertions are compiled in.
\<close>

definition memory_get_image :: "bool \<Rightarrow> image list \<Rightarrow> nat \<Rightarrow> failure + image" where
  "memory_get_image assertions images image_index =
     (if assertions \<and> \<not> image_index < length images then Inl AssertionFailure
      else if image_index < length images then Inr (images ! image_index)
      else Inl UndefinedBehaviour)"

definition memory_image_provider :: "bool \<Rightarrow> image list \<Rightarrow> image_provider" where
  "memory_image_provider assertions images =
     \<lparr>num_of_images = length images, get_image = memory_get_image assertions images\<rparr>"

text \<open>
  A failure is surfaced to the caller when it is an exception the caller can catch. A
  failed assertion aborts the process, and undefined behaviour promises nothing.
\<close>

fun surfaced_to_caller :: "failure \<Rightarrow> bool" where
  "surfaced_to_caller AssertionFailure = False"
| "surfaced_to_caller UndefinedBehaviour = False"
| "surfaced_to_caller InvalidArgument = True"
| "surfaced_to_caller OutOfRange = True"
| "surfaced_to_caller LengthError = True"
| "surfaced_to_caller BadAlloc = True"

subsection \<open>The sample provider\<close>

text \<open>
  The state of an \<^verbatim>\<open>ImageSampleProvider\<close>: the map of loaded images and the sample list \<^verbatim>\<open>samples_\<close>.
  The third field records, in order, the indices requested from the image provider; it
  is the trace of the calls of \<^verbatim>\<open>image_provider_->get_image\<close>, which may do I/O.
\<close>

record image_sample_provider =
  image_map :: "nat \<rightharpoonup> image"
  provider_samples :: "image_sample list"
  provider_requests :: "nat list"

text \<open>\<^verbatim>\<open>std::round\<close>: to the nearest integer, halves away from zero.\<close>

definition round_half_away :: "real \<Rightarrow> int" where
  "round_half_away v = (if 0 \<le> v then \<lfloor>v + 1 / 2\<rfloor> else \<lceil>v - 1 / 2\<rceil>)"

text \<open>
  \<^verbatim>\<open>compute_batch_start_index\<close>: the product of two \<^verbatim>\<open>size_type\<close> values divided in
  floating point and truncated, which is the integer quotient (exactly so for products
  below \<open>2 ^ 53\<close>).
\<close>

definition compute_batch_start_index :: "nat \<Rightarrow> nat \<Rightarrow> nat \<Rightarrow> nat" where
  "compute_batch_start_index batch_index num_of_batches batch_size =
     batch_index * batch_size div num_of_batches"

text \<open>The first loop of \<^verbatim>\<open>compute_sample_bag_batches\<close>: one draw per bag entry.\<close>

fun draw_image_indices :: "nat \<Rightarrow> nat \<Rightarrow> random_engine \<Rightarrow> nat list \<times> random_engine" where
  "draw_image_indices 0 n rnd_engine = ([], rnd_engine)"
| "draw_image_indices (Suc k) n rnd_engine =
     (case uniform_int_distribution 0 (int n - 1) rnd_engine of
        (image_index, rnd1) \<Rightarrow>
          (case draw_image_indices k n rnd1 of
             (image_indices, rnd2) \<Rightarrow> (nat image_index # image_indices, rnd2)))"

text \<open>
  \<^verbatim>\<open>compute_sample_bag_batches\<close>, for a provider of \<open>n\<close> images. The bag size is
  \<^verbatim>\<open>std::round\<close> of the product of two doubles, the bagging fraction and the converted
  number of images; the conversion of an infinite product to an integer is undefined. A
  negative bag size is converted to the size of a vector, which the vector refuses; a
  distribution over an empty range of images is undefined.
\<close>

definition compute_sample_bag_batches ::
  "image_sample_parameters \<Rightarrow> nat \<Rightarrow> nat \<Rightarrow> random_engine \<Rightarrow> failure + (nat list list \<times> random_engine)" where
  "compute_sample_bag_batches parameters n num_of_batches rnd_engine =
     (let product = double_mult (bagging_fraction parameters) (double_of_nat n);
          num_of_images_per_bag = round_half_away (double_value product) in
      if \<not> double_finite product then Inl UndefinedBehaviour
      else if num_of_images_per_bag < 0 then Inl LengthError
      else if n = 0 then Inl UndefinedBehaviour
      else
        (case draw_image_indices (nat num_of_images_per_bag) n rnd_engine of
           (drawn, rnd_engine') \<Rightarrow>
             (let image_indices = sort drawn in
              Inr (map (\<lambda>i. let index_start = compute_batch_start_index i num_of_batches
                                                  (nat num_of_images_per_bag);
                                  index_end = compute_batch_start_index (i + 1) num_of_batches
                                                (nat num_of_images_per_bag)
                              in drop index_start (take index_end image_indices))
                     [0..<num_of_batches],
                   rnd_engine'))))"

text \<open>\<^verbatim>\<open>ensure_image_is_loaded(image_index)\<close>.\<close>

definition ensure_image_is_loaded ::
  "image_provider \<Rightarrow> nat \<Rightarrow> image_sample_provider \<Rightarrow> failure + image_sample_provider" where
  "ensure_image_is_loaded provider image_index st =
     (case image_map st image_index of
        Some img \<Rightarrow> Inr st
      | None \<Rightarrow>
          (case get_image provider image_index of
             Inl e \<Rightarrow> Inl e
           | Inr img \<Rightarrow>
               Inr (st\<lparr>image_map := (image_map st)(image_index \<mapsto> img),
                       provider_requests := provider_requests st @ [image_index]\<rparr>)))"

text \<open>\<^verbatim>\<open>ensure_image_is_loaded(image_index, old_image_map)\<close>.\<close>

definition ensure_image_is_loaded_from ::
  "image_provider \<Rightarrow> nat \<Rightarrow> (nat \<rightharpoonup> image) \<Rightarrow> image_sample_provider
    \<Rightarrow> failure + image_sample_provider" where
  "ensure_image_is_loaded_from provider image_index old_image_map st =
     (case image_map st image_index of
        Some img \<Rightarrow> Inr st
      | None \<Rightarrow>
          (case old_image_map image_index of
             Some img \<Rightarrow> Inr (st\<lparr>image_map := (image_map st)(image_index \<mapsto> img)\<rparr>)
           | None \<Rightarrow>
               (case get_image provider image_index of
                  Inl e \<Rightarrow> Inl e
                | Inr img \<Rightarrow>
                    Inr (st\<lparr>image_map := (image_map st)(image_index \<mapsto> img),
                            provider_requests := provider_requests st @ [image_index]\<rparr>))))"

text \<open>
  The double loop over the pixels of an image, x outermost, that keeps the samples
  whose label is not the background label. The coordinates are converted to
  \<^verbatim>\<open>offset_type\<close>.
\<close>

definition non_background_samples :: "image_sample_parameters \<Rightarrow> image \<Rightarrow> image_sample list" where
  "non_background_samples parameters img =
     concat (map (\<lambda>x. concat (map (\<lambda>y.
         (let sample = \<lparr>image_ptr = img, sample_x = word_of_nat x, sample_y = word_of_nat y\<rparr>
          in if get_label sample \<noteq> background_label parameters then [sample] else []))
       [0..<height img])) [0..<width img])"

text \<open>\<^verbatim>\<open>std::swap\<close> of two elements of a vector.\<close>

definition swap_elements :: "'a list \<Rightarrow> nat \<Rightarrow> nat \<Rightarrow> 'a list" where
  "swap_elements xs i j = xs[i := xs ! j, j := xs ! i]"

text \<open>
  The subsampling loop of \<^verbatim>\<open>load_samples_from_image\<close>, with \<open>n\<close> rounds to go in round
  \<open>i\<close>: a draw from \<open>[0, size - 1 - i]\<close>, a swap of the drawn element with the last element
  of the vector, and a copy of the last element onto the sample list.
\<close>

fun subsample_loop ::
  "nat \<Rightarrow> nat \<Rightarrow> image_sample list \<Rightarrow> image_sample list \<Rightarrow> random_engine
    \<Rightarrow> image_sample list \<times> random_engine" where
  "subsample_loop 0 i non_background samples_acc rnd_engine = (samples_acc, rnd_engine)"
| "subsample_loop (Suc n) i non_background samples_acc rnd_engine =
     (case uniform_int_distribution 0 (int (length non_background) - 1 - int i) rnd_engine of
        (index, rnd1) \<Rightarrow>
          (let swapped = swap_elements non_background (nat index) (length non_background - 1)
           in subsample_loop n (Suc i) swapped (samples_acc @ [last swapped]) rnd1))"

text \<open>
  The samples \<^verbatim>\<open>load_samples_from_image\<close> appends for an image, and the engine after
  the draws. The sample count is \<^verbatim>\<open>std::round\<close> of a product of doubles, taken from left
  to right: the fraction by the converted width, and that by the converted height. An
  infinite or a negative count is not convertible to \<^verbatim>\<open>size_type\<close>.
\<close>

definition image_samples ::
  "image_sample_parameters \<Rightarrow> image \<Rightarrow> random_engine \<Rightarrow> failure + (image_sample list \<times> random_engine)" where
  "image_samples parameters img rnd_engine =
     (if double_value (samples_per_image_fraction parameters) < 1
      then
        (let product = double_mult (double_mult (samples_per_image_fraction parameters)
                                      (double_of_nat (width img)))
                         (double_of_nat (height img));
             num_of_samples_per_image = round_half_away (double_value product)
         in if double_finite product \<and> 0 \<le> num_of_samples_per_image
            then
              (let non_background = non_background_samples parameters img;
                   num_of_samples = min (nat num_of_samples_per_image) (length non_background)
               in Inr (subsample_loop num_of_samples 0 non_background [] rnd_engine))
            else Inl UndefinedBehaviour)
      else Inr (non_background_samples parameters img, rnd_engine))"

text \<open>\<^verbatim>\<open>load_samples_from_image\<close>.\<close>

definition load_samples_from_image ::
  "image_provider \<Rightarrow> image_sample_parameters \<Rightarrow> nat \<Rightarrow> image_sample_provider \<Rightarrow> random_engine
    \<Rightarrow> failure + (image_sample_provider \<times> random_engine)" where
  "load_samples_from_image provider parameters image_index st rnd_engine =
     (case ensure_image_is_loaded provider image_index st of
        Inl e \<Rightarrow> Inl e
      | Inr st1 \<Rightarrow>
          (case image_map st1 image_index of
             None \<Rightarrow> Inl OutOfRange
           | Some img \<Rightarrow>
               (case image_samples parameters img rnd_engine of
                  Inl e \<Rightarrow> Inl e
                | Inr (new_samples, rnd_engine') \<Rightarrow>
                    Inr (st1\<lparr>provider_samples := provider_samples st1 @ new_samples\<rparr>, rnd_engine'))))"

text \<open>The loop of \<^verbatim>\<open>load_sample_batch\<close> over the image indices of the batch.\<close>

fun load_sample_batch_loop ::
  "image_provider \<Rightarrow> image_sample_parameters \<Rightarrow> (nat \<rightharpoonup> image) \<Rightarrow> nat list
    \<Rightarrow> image_sample_provider \<Rightarrow> random_engine
    \<Rightarrow> failure + (image_sample_provider \<times> random_engine)" where
  "load_sample_batch_loop provider parameters old_image_map [] st rnd_engine = Inr (st, rnd_engine)"
| "load_sample_batch_loop provider parameters old_image_map (image_index # rest) st rnd_engine =
     (case ensure_image_is_loaded_from provider image_index old_image_map st of
        Inl e \<Rightarrow> Inl e
      | Inr st1 \<Rightarrow>
          (case load_samples_from_image provider parameters image_index st1 rnd_engine of
             Inl e \<Rightarrow> Inl e
           | Inr (st2, rnd1) \<Rightarrow>
               load_sample_batch_loop provider parameters old_image_map rest st2 rnd1))"

text \<open>\<^verbatim>\<open>load_sample_batch\<close>.\<close>

definition load_sample_batch ::
  "image_provider \<Rightarrow> image_sample_parameters \<Rightarrow> nat list \<Rightarrow> image_sample_provider \<Rightarrow> random_engine
    \<Rightarrow> failure + (image_sample_provider \<times> random_engine)" where
  "load_sample_batch provider parameters split_sample_item st rnd_engine =
     (let old_image_map = image_map st
      in load_sample_batch_loop provider parameters old_image_map split_sample_item
           (st\<lparr>provider_samples := [], image_map := Map.empty\<rparr>) rnd_engine)"

text \<open>
  The contract of the sample cache for a batch in which an image index may occur more
  than once, in its words. The elements taken from a vector by a sequence of drawn
  indices: the element at the drawn index is taken, and changes places with the last
  element of the vector.
\<close>

fun tail_swaps :: "'a list \<Rightarrow> nat list \<Rightarrow> 'a list" where
  "tail_swaps xs [] = []"
| "tail_swaps xs (index # indices) =
     xs ! index # tail_swaps (xs[index := last xs, length xs - 1 := xs ! index]) indices"

text \<open>
  The number of samples an occurrence takes from an image with \<open>n\<close> non-background
  pixels when the fraction \<open>f\<close> is below 1, and the indices it draws: draw \<open>j\<close> is a draw
  from \<open>[0, n - 1 - j]\<close> of its own, from the engine as the \<open>j\<close> draws before it left it.
\<close>

definition occurrence_count :: "double \<Rightarrow> image \<Rightarrow> nat \<Rightarrow> nat" where
  "occurrence_count f img num_of_pixels =
     min (nat (round (double_value
                        (double_mult (double_mult f (double_of_nat (width img)))
                           (double_of_nat (height img))))))
         num_of_pixels"

definition occurrence_draws :: "nat \<Rightarrow> nat \<Rightarrow> random_engine \<Rightarrow> nat list" where
  "occurrence_draws count num_of_pixels rnd_engine =
     map (\<lambda>j. nat (fst (uniform_int_distribution 0 (int num_of_pixels - 1 - int j)
                            ((advance ^^ j) rnd_engine))))
       [0..<count]"

text \<open>
  The samples of a whole batch: every occurrence of an image index, in the order of the
  batch, contributes samples of its image. With a fraction below 1 these are a
  subsample drawn for this occurrence, from the engine as the occurrences before it
  left it; otherwise they are all non-background pixels of the image, and the engine
  is not used.
\<close>

fun occurrence_samples ::
  "image_sample_parameters \<Rightarrow> (nat \<Rightarrow> image) \<Rightarrow> nat list \<Rightarrow> random_engine
    \<Rightarrow> image_sample list \<times> random_engine" where
  "occurrence_samples parameters images [] rnd_engine = ([], rnd_engine)"
| "occurrence_samples parameters images (image_index # rest) rnd_engine =
     (let pixels = non_background_samples parameters (images image_index);
          count = occurrence_count (samples_per_image_fraction parameters) (images image_index)
                    (length pixels)
      in if double_value (samples_per_image_fraction parameters) < 1
         then
           (case occurrence_samples parameters images rest ((advance ^^ count) rnd_engine) of
              (rest_samples, rnd_engine') \<Rightarrow>
                (tail_swaps pixels (occurrence_draws count (length pixels) rnd_engine) @ rest_samples,
                 rnd_engine'))
         else
           (case occurrence_samples parameters images rest rnd_engine of
              (rest_samples, rnd_engine') \<Rightarrow> (pixels @ rest_samples, rnd_engine')))"

text \<open>
  An image of three pixels in a row, none of them background, with parameters that
  ask for nine tenths of the pixels (the fraction is the double nearest to 0.9), and
  the engine whose outputs are all 0.
\<close>

definition row_image :: image where
  "row_image = \<lparr>width = 3, height = 1, data_matrix = (\<lambda>x y. 0), label_matrix = (\<lambda>x y. 0)\<rparr>"

definition subsample_parameters :: image_sample_parameters where
  "subsample_parameters =
     \<lparr>bagging_fraction = (1, 0), samples_per_image_fraction = (8106479329266893, - 53),
      background_label = 32767\<rparr>"

definition full_parameters :: image_sample_parameters where
  "full_parameters =
     \<lparr>bagging_fraction = (1, 0), samples_per_image_fraction = (1, 0), background_label = 32767\<rparr>"

definition zero_engine :: random_engine where
  "zero_engine = (\<lambda>i. 0)"

definition empty_sample_provider :: image_sample_provider where
  "empty_sample_provider = \<lparr>image_map = Map.empty, provider_samples = [], provider_requests = []\<rparr>"

text \<open>An engine whose first outputs are 2, 1 and 0.\<close>

definition descending_engine :: random_engine where
  "descending_engine = (\<lambda>i. 2 - i)"

text \<open>
  Parameters whose bagging fraction is the double nearest to 0.3: its product with 5 is
  the double 1.5, which rounds to 2, while the real product lies below 1.5.
\<close>

definition third_parameters :: image_sample_parameters where
  "third_parameters =
     \<lparr>bagging_fraction = (5404319552844595, - 54), samples_per_image_fraction = (1, 0),
      background_label = 32767\<rparr>"

text \<open>An engine whose fourth output is 1 and all others 0.\<close>

definition fourth_engine :: random_engine where
  "fourth_engine = (\<lambda>i. if i = 3 then 1 else 0)"

subsection \<open>Trees\<close>

text \<open>
  Modelled from the spec: the tree (\<^verbatim>\<open>tree.h\<close> and \<^verbatim>\<open>node.h\<close> are not among the sources).
  A complete binary tree in heap order, the children of node \<open>i\<close> at \<open>2 i + 1\<close> and
  \<open>2 i + 2\<close>; every node holds a leaf flag, an optional split point and a statistics
  summary. Growth only flips leaf flags and writes split points: \<^verbatim>\<open>set_leaf\<close> writes the
  flag, \<^verbatim>\<open>set_split_point\<close> the split point and \<^verbatim>\<open>set_statistics\<close> the statistics of one
  node. A node index outside the tree is a failure.
\<close>

record 'st node_entry =
  node_split_point :: "image_split_point option"
  node_statistics :: 'st
  is_leaf :: bool

type_synonym 'st tree = "'st node_entry list"

definition left_child :: "nat \<Rightarrow> nat" where
  "left_child node_index = 2 * node_index + 1"

definition right_child :: "nat \<Rightarrow> nat" where
  "right_child node_index = 2 * node_index + 2"

definition update_node ::
  "nat \<Rightarrow> ('st node_entry \<Rightarrow> 'st node_entry) \<Rightarrow> 'st tree \<Rightarrow> failure + 'st tree" where
  "update_node node_index f tree =
     (if node_index < length tree then Inr (tree[node_index := f (tree ! node_index)])
      else Inl OutOfRange)"

definition set_split_point :: "nat \<Rightarrow> image_split_point \<Rightarrow> 'st tree \<Rightarrow> failure + 'st tree" where
  "set_split_point node_index split_point =
     update_node node_index (\<lambda>entry. entry\<lparr>node_split_point := Some split_point\<rparr>)"

definition set_leaf :: "nat \<Rightarrow> bool \<Rightarrow> 'st tree \<Rightarrow> failure + 'st tree" where
  "set_leaf node_index leaf = update_node node_index (\<lambda>entry. entry\<lparr>is_leaf := leaf\<rparr>)"

definition set_statistics :: "nat \<Rightarrow> 'st \<Rightarrow> 'st tree \<Rightarrow> failure + 'st tree" where
  "set_statistics node_index st = update_node node_index (\<lambda>entry. entry\<lparr>node_statistics := st\<rparr>)"

subsection \<open>The level trainer\<close>

text \<open>
  \<^verbatim>\<open>TrainingParameters\<close> with the thread count that \<^verbatim>\<open>LevelTrainingParameters\<close> adds. The
  depth and the minimum number of samples are compared with \<^verbatim>\<open>size_type\<close> values and are
  modelled as natural numbers.
\<close>

record level_training_parameters =
  tree_depth :: nat
  minimum_num_of_samples :: nat
  minimum_information_gain :: scalar_type
  num_of_threads :: int

text \<open>\<^verbatim>\<open>SplitInformation\<close>.\<close>

record split_information =
  information_gain :: scalar_type
  total_num_of_samples :: nat
  left_num_of_samples :: nat
  right_num_of_samples :: nat

text \<open>
  The trainer is a template over the weak learner. The operations of the weak learner
  and of its statistics that the trainer calls are passed as a record.
\<close>

record 'st weak_learner =
  wl_create_statistics :: 'st
  wl_accumulate :: "image_sample \<Rightarrow> 'st \<Rightarrow> 'st"
  wl_num_of_samples :: "'st \<Rightarrow> nat"
  wl_sample_split_points ::
    "image_sample list \<Rightarrow> random_engine \<Rightarrow> failure + (image_split_point_candidates \<times> random_engine)"
  wl_compute_split_statistics ::
    "image_sample list \<Rightarrow> image_split_point_candidates \<Rightarrow> failure + 'st split_statistics"
  wl_compute_split_statistics_parallel ::
    "image_sample list \<Rightarrow> image_split_point_candidates \<Rightarrow> int \<Rightarrow> failure + 'st split_statistics"
  wl_find_best_split_point_tuple :: "'st \<Rightarrow> 'st split_statistics \<Rightarrow> nat \<times> scalar_type"

text \<open>
  A \<^verbatim>\<open>TreeNodeMap\<close> is a \<^verbatim>\<open>std::map\<close> from node indices to values, visited in key order:
  a list of pairs in that order. \<^verbatim>\<open>at\<close> throws \<^verbatim>\<open>std::out_of_range\<close> for a missing key.
\<close>

type_synonym 'a tree_node_map = "(nat \<times> 'a) list"

definition node_map_at :: "'a tree_node_map \<Rightarrow> nat \<Rightarrow> failure + 'a" where
  "node_map_at m node_index =
     (case map_of m node_index of None \<Rightarrow> Inl OutOfRange | Some v \<Rightarrow> Inr v)"

text \<open>\<^verbatim>\<open>compute_statistics_batch\<close>.\<close>

definition compute_statistics_batch ::
  "'st weak_learner \<Rightarrow> image_sample list tree_node_map \<Rightarrow> 'st tree_node_map" where
  "compute_statistics_batch W node_to_sample_map =
     map (\<lambda>(node_index, node_samples).
            (node_index, fold (wl_accumulate W) node_samples (wl_create_statistics W)))
       node_to_sample_map"

text \<open>\<^verbatim>\<open>update_node_statistics_batch\<close>.\<close>

fun update_node_statistics_batch :: "'st tree_node_map \<Rightarrow> 'st tree \<Rightarrow> failure + 'st tree" where
  "update_node_statistics_batch [] tree = Inr tree"
| "update_node_statistics_batch ((node_index, st) # rest) tree =
     (case set_statistics node_index st tree of
        Inl e \<Rightarrow> Inl e
      | Inr tree' \<Rightarrow> update_node_statistics_batch rest tree')"

text \<open>\<^verbatim>\<open>sample_split_points_batch\<close>.\<close>

fun sample_split_points_batch ::
  "'st weak_learner \<Rightarrow> image_sample list tree_node_map \<Rightarrow> random_engine
    \<Rightarrow> failure + (image_split_point_candidates tree_node_map \<times> random_engine)" where
  "sample_split_points_batch W [] rnd_engine = Inr ([], rnd_engine)"
| "sample_split_points_batch W ((node_index, node_samples) # rest) rnd_engine =
     (case wl_sample_split_points W node_samples rnd_engine of
        Inl e \<Rightarrow> Inl e
      | Inr (split_points, rnd1) \<Rightarrow>
          (case sample_split_points_batch W rest rnd1 of
             Inl e \<Rightarrow> Inl e
           | Inr (split_points_batch, rnd2) \<Rightarrow>
               Inr ((node_index, split_points) # split_points_batch, rnd2)))"

text \<open>
  \<^verbatim>\<open>compute_split_statistics_batch\<close>. The first flag tells whether \<^verbatim>\<open>AIT_MULTI_THREADING\<close>
  is set.
\<close>

fun compute_split_statistics_batch ::
  "bool \<Rightarrow> 'st weak_learner \<Rightarrow> level_training_parameters \<Rightarrow> image_sample list tree_node_map
    \<Rightarrow> image_split_point_candidates tree_node_map
    \<Rightarrow> failure + 'st split_statistics tree_node_map" where
  "compute_split_statistics_batch multi_threading W parameters [] split_points_batch = Inr []"
| "compute_split_statistics_batch multi_threading W parameters ((node_index, node_samples) # rest)
     split_points_batch =
     (case node_map_at split_points_batch node_index of
        Inl e \<Rightarrow> Inl e
      | Inr split_points \<Rightarrow>
          (case (if multi_threading \<and> num_of_threads parameters \<noteq> 1
                 then wl_compute_split_statistics_parallel W node_samples split_points
                        (num_of_threads parameters)
                 else wl_compute_split_statistics W node_samples split_points) of
             Inl e \<Rightarrow> Inl e
           | Inr split_statistics \<Rightarrow>
               (case compute_split_statistics_batch multi_threading W parameters rest
                       split_points_batch of
                  Inl e \<Rightarrow> Inl e
                | Inr split_statistics_batch \<Rightarrow>
                    Inr ((node_index, split_statistics) # split_statistics_batch))))"

text \<open>
  The statistics read by \<^verbatim>\<open>get_left_statistics(k)\<close> and \<^verbatim>\<open>get_right_statistics(k)\<close>.
\<close>

definition get_left_statistics :: "'st split_statistics \<Rightarrow> nat \<Rightarrow> failure + 'st" where
  "get_left_statistics ss k =
     (if k < length (left_statistics ss) then Inr (left_statistics ss ! k) else Inl OutOfRange)"

definition get_right_statistics :: "'st split_statistics \<Rightarrow> nat \<Rightarrow> failure + 'st" where
  "get_right_statistics ss k =
     (if k < length (right_statistics ss) then Inr (right_statistics ss ! k) else Inl OutOfRange)"

text \<open>The body of the loop of \<^verbatim>\<open>find_best_split_point_batch\<close> for one node.\<close>

definition find_best_split_point_node ::
  "bool \<Rightarrow> 'st weak_learner \<Rightarrow> image_split_point_candidates tree_node_map \<Rightarrow> 'st tree_node_map
    \<Rightarrow> nat \<Rightarrow> 'st split_statistics \<Rightarrow> failure + (image_split_point \<times> split_information)" where
  "find_best_split_point_node assertions W split_points_batch current_statistics node_index
     split_statistics =
     (case node_map_at split_points_batch node_index of Inl e \<Rightarrow> Inl e | Inr split_points \<Rightarrow>
      case node_map_at current_statistics node_index of Inl e \<Rightarrow> Inl e | Inr current \<Rightarrow>
      case wl_find_best_split_point_tuple W current split_statistics of
        (best_split_point_index, gain) \<Rightarrow>
      case get_split_point assertions split_points best_split_point_index of
        Inl e \<Rightarrow> Inl e | Inr best_split_point \<Rightarrow>
      case get_left_statistics split_statistics best_split_point_index of
        Inl e \<Rightarrow> Inl e | Inr left \<Rightarrow>
      case get_right_statistics split_statistics best_split_point_index of
        Inl e \<Rightarrow> Inl e | Inr right \<Rightarrow>
        Inr (best_split_point,
             \<lparr>information_gain = gain,
              total_num_of_samples = wl_num_of_samples W current,
              left_num_of_samples = wl_num_of_samples W left,
              right_num_of_samples = wl_num_of_samples W right\<rparr>))"

text \<open>\<^verbatim>\<open>find_best_split_point_batch\<close>.\<close>

fun find_best_split_point_batch ::
  "bool \<Rightarrow> 'st weak_learner \<Rightarrow> image_split_point_candidates tree_node_map \<Rightarrow> 'st tree_node_map
    \<Rightarrow> 'st split_statistics tree_node_map
    \<Rightarrow> failure + (image_split_point \<times> split_information) tree_node_map" where
  "find_best_split_point_batch assertions W split_points_batch current_statistics [] = Inr []"
| "find_best_split_point_batch assertions W split_points_batch current_statistics
     ((node_index, split_statistics) # rest) =
     (case find_best_split_point_node assertions W split_points_batch current_statistics node_index
             split_statistics of
        Inl e \<Rightarrow> Inl e
      | Inr best \<Rightarrow>
          (case find_best_split_point_batch assertions W split_points_batch current_statistics rest of
             Inl e \<Rightarrow> Inl e
           | Inr best_split_point_batch \<Rightarrow> Inr ((node_index, best) # best_split_point_batch)))"

text \<open>
  The body of the last loop of \<^verbatim>\<open>train_tree_level_part\<close> for one node: the split point
  is written, both children are made leaves, and the node's own flag is set by the two
  stopping criteria.
\<close>

definition apply_best_split_point ::
  "level_training_parameters \<Rightarrow> nat \<Rightarrow> image_split_point \<times> split_information \<Rightarrow> 'st tree
    \<Rightarrow> failure + 'st tree" where
  "apply_best_split_point parameters node_index best tree =
     (case set_split_point node_index (fst best) tree of Inl e \<Rightarrow> Inl e | Inr tree1 \<Rightarrow>
      case set_leaf (left_child node_index) True tree1 of Inl e \<Rightarrow> Inl e | Inr tree2 \<Rightarrow>
      case set_leaf (right_child node_index) True tree2 of Inl e \<Rightarrow> Inl e | Inr tree3 \<Rightarrow>
        if information_gain (snd best) < minimum_information_gain parameters
           \<or> total_num_of_samples (snd best) < minimum_num_of_samples parameters
        then set_leaf node_index True tree3
        else set_leaf node_index False tree3)"

text \<open>The last loop of \<^verbatim>\<open>train_tree_level_part\<close>.\<close>

fun apply_best_split_points ::
  "level_training_parameters \<Rightarrow> (image_split_point \<times> split_information) tree_node_map \<Rightarrow> 'st tree
    \<Rightarrow> failure + 'st tree" where
  "apply_best_split_points parameters [] tree = Inr tree"
| "apply_best_split_points parameters ((node_index, best) # rest) tree =
     (case apply_best_split_point parameters node_index best tree of
        Inl e \<Rightarrow> Inl e
      | Inr tree' \<Rightarrow> apply_best_split_points parameters rest tree')"

text \<open>\<^verbatim>\<open>train_tree_level_part\<close>; the results are the tree and the engine.\<close>

definition train_tree_level_part ::
  "bool \<Rightarrow> bool \<Rightarrow> 'st weak_learner \<Rightarrow> level_training_parameters \<Rightarrow> image_sample list tree_node_map
    \<Rightarrow> 'st tree \<Rightarrow> nat \<Rightarrow> random_engine \<Rightarrow> failure + ('st tree \<times> random_engine)" where
  "train_tree_level_part assertions multi_threading W parameters node_to_sample_map tree
     current_level rnd_engine =
     (let current_statistics = compute_statistics_batch W node_to_sample_map in
      case update_node_statistics_batch current_statistics tree of Inl e \<Rightarrow> Inl e | Inr tree1 \<Rightarrow>
        if current_level < tree_depth parameters
        then
          (case sample_split_points_batch W node_to_sample_map rnd_engine of
             Inl e \<Rightarrow> Inl e | Inr (split_points_batch, rnd1) \<Rightarrow>
           case compute_split_statistics_batch multi_threading W parameters node_to_sample_map
                  split_points_batch of
             Inl e \<Rightarrow> Inl e | Inr split_statistics_batch \<Rightarrow>
           case find_best_split_point_batch assertions W split_points_batch current_statistics
                  split_statistics_batch of
             Inl e \<Rightarrow> Inl e | Inr best_split_point_batch \<Rightarrow>
           case apply_best_split_points parameters best_split_point_batch tree1 of
             Inl e \<Rightarrow> Inl e | Inr tree2 \<Rightarrow> Inr (tree2, rnd1))
        else Inr (tree1, rnd_engine))"

text \<open>
  A tree of depth 1 whose nodes hold no split point, a split point, and a split
  information with no gain, under parameters that ask for a positive gain.
\<close>

definition small_tree :: "nat tree" where
  "small_tree = replicate 3 \<lparr>node_split_point = None, node_statistics = 0, is_leaf = True\<rparr>"

definition chosen_split_point :: image_split_point where
  "chosen_split_point = make_split_point neighbour_feature (1 / 2)"

definition no_gain :: split_information where
  "no_gain = \<lparr>information_gain = 0, total_num_of_samples = 200,
              left_num_of_samples = 200, right_num_of_samples = 0\<rparr>"

definition good_gain :: split_information where
  "good_gain = \<lparr>information_gain = 2, total_num_of_samples = 200,
              left_num_of_samples = 120, right_num_of_samples = 80\<rparr>"

definition strict_parameters :: level_training_parameters where
  "strict_parameters =
     \<lparr>tree_depth = 1, minimum_num_of_samples = 100, minimum_information_gain = 1,
      num_of_threads = 1\<rparr>"

text \<open>A tree of depth 2 whose seven nodes hold no split point.\<close>

definition two_level_tree :: "nat tree" where
  "two_level_tree = replicate 7 \<lparr>node_split_point = None, node_statistics = 0, is_leaf = True\<rparr>"

text \<open>
  A weak learner over sample counts that draws no candidates, as with
  \<^verbatim>\<open>num_of_features = 0\<close>, and names candidate 0 as the best one.
\<close>

definition counting_weak_learner :: "nat weak_learner" where
  "counting_weak_learner =
     \<lparr>wl_create_statistics = 0,
      wl_accumulate = (\<lambda>sample n. Suc n),
      wl_num_of_samples = (\<lambda>n. n),
      wl_sample_split_points = (\<lambda>node_samples rnd_engine. Inr (empty_candidates, rnd_engine)),
      wl_compute_split_statistics =
        (\<lambda>node_samples split_points. Inr \<lparr>left_statistics = [], right_statistics = []\<rparr>),
      wl_compute_split_statistics_parallel =
        (\<lambda>node_samples split_points threads. Inr \<lparr>left_statistics = [], right_statistics = []\<rparr>),
      wl_find_best_split_point_tuple = (\<lambda>current split_statistics. (0, 0))\<rparr>"

subsection \<open>Parallel accumulation of split statistics\<close>

text \<open>
  The worker threads of \<^verbatim>\<open>compute_split_statistics_parallel\<close> share the split statistics
  and run without synchronisation. A thread is modelled by the sequence of calls it
  makes on the shared statistics: each call names the array, the index and the operation
  applied to that entry.
\<close>

datatype side = LeftSide | RightSide

type_synonym 'st action = "side \<times> nat \<times> ('st \<Rightarrow> 'st)"

definition apply_action :: "'st action \<Rightarrow> 'st split_statistics \<Rightarrow> failure + 'st split_statistics" where
  "apply_action a ss =
     (case a of
        (LeftSide, k, f) \<Rightarrow> update_left_statistics k f ss
      | (RightSide, k, f) \<Rightarrow> update_right_statistics k f ss)"

fun run_actions :: "'st action list \<Rightarrow> 'st split_statistics \<Rightarrow> failure + 'st split_statistics" where
  "run_actions [] ss = Inr ss"
| "run_actions (a # actions) ss =
     (case apply_action a ss of Inl e \<Rightarrow> Inl e | Inr ss' \<Rightarrow> run_actions actions ss')"

text \<open>The calls of the inner loop of \<^verbatim>\<open>_compute_split_statistics\<close> for one sample.\<close>

fun sample_actions ::
  "'st statistics_type \<Rightarrow> image_sample \<Rightarrow> scalar_type \<Rightarrow> scalar_type list \<Rightarrow> nat \<Rightarrow> 'st action list" where
  "sample_actions S sample v [] statistics_index = []"
| "sample_actions S sample v (threshold # thresholds) statistics_index =
     (if left_direction threshold v then LeftSide else RightSide, statistics_index,
      lazy_accumulate S sample)
     # sample_actions S sample v thresholds (Suc statistics_index)"

text \<open>The calls of one run of \<^verbatim>\<open>_compute_split_statistics\<close>: both of its loops.\<close>

definition feature_actions ::
  "'st statistics_type \<Rightarrow> image_sample list \<Rightarrow> nat \<Rightarrow> image_feature \<Rightarrow> scalar_type list
    \<Rightarrow> 'st action list" where
  "feature_actions S samples statistics_index_offset feature thresholds =
     concat (map (\<lambda>sample. sample_actions S sample (compute_pixel_difference feature sample)
                              thresholds statistics_index_offset) samples)
     @ concat (map (\<lambda>threshold.
                      [(LeftSide, statistics_index_offset, finish_lazy_accumulation S),
                       (RightSide, statistics_index_offset, finish_lazy_accumulation S)])
                 thresholds)"

text \<open>
  The body of \<^verbatim>\<open>thread_lambda\<close>: the loop over the split point indices of the shard,
  given as the list of these indices. An index past the candidate list would read
  past its end.
\<close>

fun thread_lambda ::
  "'st statistics_type \<Rightarrow> image_sample list \<Rightarrow> (image_feature \<times> scalar_type list) list \<Rightarrow> nat list
    \<Rightarrow> 'st split_statistics \<Rightarrow> failure + 'st split_statistics" where
  "thread_lambda S samples cs [] ss = Inr ss"
| "thread_lambda S samples cs (split_point_index # rest) ss =
     (if split_point_index < length cs
      then
        (case compute_split_statistics_feature S samples ss
                (split_point_index * length (snd (cs ! split_point_index)))
                (fst (cs ! split_point_index)) (snd (cs ! split_point_index)) of
           Inl e \<Rightarrow> Inl e
         | Inr ss' \<Rightarrow> thread_lambda S samples cs rest ss')
      else Inl UndefinedBehaviour)"

text \<open>The calls a thread makes for the split point indices of its shard.\<close>

definition thread_actions ::
  "'st statistics_type \<Rightarrow> image_sample list \<Rightarrow> (image_feature \<times> scalar_type list) list \<Rightarrow> nat list
    \<Rightarrow> 'st action list" where
  "thread_actions S samples cs indices =
     concat (map (\<lambda>split_point_index.
                    feature_actions S samples
                      (split_point_index * length (snd (cs ! split_point_index)))
                      (fst (cs ! split_point_index)) (snd (cs ! split_point_index)))
               indices)"

text \<open>
  The shard of thread \<open>t\<close> of \<open>T\<close> over \<open>F\<close> features: from \<open>floor (t * F / T)\<close> to
  \<open>floor ((t + 1) * F / T)\<close>, the quotient taken in floating point (exact for products
  below \<open>2 ^ 53\<close>).
\<close>

definition shard :: "nat \<Rightarrow> nat \<Rightarrow> nat \<Rightarrow> nat list" where
  "shard F T thread_index = [thread_index * F div T..<(thread_index + 1) * F div T]"

definition thread_programs ::
  "'st statistics_type \<Rightarrow> image_sample list \<Rightarrow> image_split_point_candidates \<Rightarrow> nat
    \<Rightarrow> 'st action list list" where
  "thread_programs S samples split_points T =
     map (\<lambda>thread_index.
            thread_actions S samples (candidates split_points)
              (shard (length (candidates split_points)) T thread_index))
       [0..<T]"

text \<open>
  A schedule of a set of threads: an order of all their calls that keeps the order of
  the calls of each thread.
\<close>

inductive interleaving :: "'a list list \<Rightarrow> 'a list \<Rightarrow> bool" where
  finished: "\<forall>p \<in> set ps. p = [] \<Longrightarrow> interleaving ps []"
| step: "t < length ps \<Longrightarrow> ps ! t = a # p \<Longrightarrow> interleaving (ps[t := p]) schedule
         \<Longrightarrow> interleaving ps (a # schedule)"

text \<open>
  The list of all schedules of a set of threads: while some thread has calls left,
  any such thread makes its next call.
\<close>

fun finished_program :: "'a list \<Rightarrow> bool" where
  "finished_program [] = True"
| "finished_program (a # p) = False"

function interleavings :: "'a list list \<Rightarrow> 'a list list" where
  "interleavings ps =
     (if list_all finished_program ps then [Nil]
      else concat (map (\<lambda>t. case ps ! t of
                              [] \<Rightarrow> []
                            | a # p \<Rightarrow> map ((#) a) (interleavings (ps[t := p])))
                     [0..<length ps]))"
  by pat_completeness auto
termination
proof (relation "measure (\<lambda>ps. sum_list (map length ps))")
  show "wf (measure (\<lambda>ps :: 'a list list. sum_list (map length ps)))"
    by simp
next
  fix ps :: "'a list list" and t :: nat and a :: 'a and p :: "'a list"
  assume "t \<in> set [0..<length ps]" and at: "ps ! t = a # p"
  then have t: "t < length ps" by simp
  have whole: "ps = take t ps @ (a # p) # drop (Suc t) ps"
    using t at by (metis id_take_nth_drop)
  have upd: "ps[t := p] = take t ps @ p # drop (Suc t) ps"
    using t by (rule upd_conv_take_nth_drop)
  have "sum_list (map length (ps[t := p])) =
      sum_list (map length (take t ps)) + length p + sum_list (map length (drop (Suc t) ps))"
    unfolding upd by simp
  moreover have "sum_list (map length ps) =
      sum_list (map length (take t ps)) + Suc (length p) + sum_list (map length (drop (Suc t) ps))"
    by (subst whole) simp
  ultimately show "(ps[t := p], ps) \<in> measure (\<lambda>ps. sum_list (map length ps))"
    by simp
qed

declare interleavings.simps [simp del]

text \<open>
  \<^verbatim>\<open>compute_split_statistics_parallel\<close>: the thread count falls back to the hardware
  concurrency, the statistics are created, and the threads run to their join under
  some schedule. The model returns the result of every schedule.
\<close>

definition compute_split_statistics_parallel ::
  "'st statistics_type \<Rightarrow> nat \<Rightarrow> image_sample list \<Rightarrow> image_split_point_candidates \<Rightarrow> int
    \<Rightarrow> (failure + 'st split_statistics) list" where
  "compute_split_statistics_parallel S hardware_concurrency samples split_points threads =
     (let T = (if threads \<le> 0 then hardware_concurrency else nat threads) in
      map (\<lambda>schedule. run_actions schedule (new_split_statistics (total_size split_points) S))
        (interleavings (thread_programs S samples split_points T)))"

text \<open>The entries of the statistics arrays that a sequence of calls touches.\<close>

definition cell :: "'st action \<Rightarrow> side \<times> nat" where
  "cell a = (fst a, fst (snd a))"

definition cells :: "'st action list \<Rightarrow> (side \<times> nat) set" where
  "cells actions = cell ` set actions"

text \<open>
  A candidate set whose two features have two thresholds and one threshold.
\<close>

definition ragged_candidates :: image_split_point_candidates where
  "ragged_candidates =
     add_feature_and_thresholds zero_feature [1 / 2]
       (add_feature_and_thresholds zero_feature [- (1 / 2), 1 / 2] empty_candidates)"

text \<open>
  The value of one entry after a sequence of calls: the operations of the calls on
  that entry, applied in order.
\<close>

definition cell_value :: "side \<times> nat \<Rightarrow> 'st action list \<Rightarrow> 'st \<Rightarrow> 'st" where
  "cell_value c actions x = fold (\<lambda>a. snd (snd a)) (filter (\<lambda>a. cell a = c) actions) x"

text \<open>No entry is touched by two threads.\<close>

definition disjoint_programs :: "'st action list list \<Rightarrow> bool" where
  "disjoint_programs ps =
     (\<forall>t1 < length ps. \<forall>t2 < length ps. t1 \<noteq> t2 \<longrightarrow> cells (ps ! t1) \<inter> cells (ps ! t2) = {})"

text \<open>A candidate set of two features with two thresholds each.\<close>

definition two_feature_candidates :: image_split_point_candidates where
  "two_feature_candidates =
     add_feature_and_thresholds zero_feature [- (1 / 2), 1 / 2]
       (add_feature_and_thresholds zero_feature [- (1 / 2), 1 / 2] empty_candidates)"

section \<open>Evaluation of a split point\<close>

lemma compute_pixel_value_padded:
  "sint (compute_pixel_value sample ox oy) =
     padded_pixel (image_ptr sample) (sint (sample_x sample) + sint ox) (sint (sample_y sample) + sint oy)"
  by (auto simp: compute_pixel_value_def padded_pixel_def Let_def)

lemma sp_compute_pixel_difference_padded:
  "sp_compute_pixel_difference sp sample =
     real_of_int
      (padded_pixel (image_ptr sample) (sint (sample_x sample) + sint (sp_offset_x1 sp))
         (sint (sample_y sample) + sint (sp_offset_y1 sp))
       - padded_pixel (image_ptr sample) (sint (sample_x sample) + sint (sp_offset_x2 sp))
           (sint (sample_y sample) + sint (sp_offset_y2 sp)))"
  by (simp add: sp_compute_pixel_difference_def Let_def compute_pixel_value_padded
      del: of_int_sint)

lemma pixel_of_scalar_int:
  "pixel_of_scalar (real_of_int d) =
     (if - 32768 \<le> d \<and> d \<le> 32767 then Some (word_of_int d) else None)"
  by (simp add: pixel_of_scalar_def)

lemma sint_word_of_int_16:
  assumes "- 32768 \<le> d" and "d \<le> 32767"
  shows "sint (word_of_int d :: 16 word) = d"
proof -
  have "signed_take_bit (LENGTH(16) - 1) d = d"
    using assms by (intro signed_take_bit_int_eq_self) simp_all
  then show ?thesis
    by (simp only: sint_sbintrunc')
qed

text \<open>
  Where the difference of the two padded pixel values fits into 16 bits, evaluation
  returns LEFT exactly when the difference is below the threshold.
\<close>

lemma evaluate_in_range:
  assumes "d = padded_pixel (image_ptr sample) (sint (sample_x sample) + sint (sp_offset_x1 sp))
                 (sint (sample_y sample) + sint (sp_offset_y1 sp))
             - padded_pixel (image_ptr sample) (sint (sample_x sample) + sint (sp_offset_x2 sp))
                 (sint (sample_y sample) + sint (sp_offset_y2 sp))"
    and "- 32768 \<le> d" and "d \<le> 32767"
  shows "evaluate sp sample = Some (if real_of_int d < sp_threshold sp then LEFT else RIGHT)"
  using assms
  by (simp add: evaluate_def sp_compute_pixel_difference_padded pixel_of_scalar_int
      evaluate_value_def sint_word_of_int_16 del: of_int_sint of_int_diff)

text \<open>
  C6: evaluation of a split point at a sample returns LEFT if and only if
  \<open>P(x + ox1, y + oy1) - P(x + ox2, y + oy2) < t\<close> and RIGHT otherwise, reads outside the
  image giving 0. At the pixels 32767 and -1 the difference is 32768, which is not below
  the threshold 0, so the claim asks for RIGHT; the code first narrows the difference to
  the 16-bit pixel type, where 32768 is not representable, and returns no defined
  direction.
\<close>

theorem evaluate_narrows_difference:
  "padded_pixel overflow_image 0 0 - padded_pixel overflow_image 1 0 = 32768
   \<and> \<not> (real_of_int (padded_pixel overflow_image 0 0 - padded_pixel overflow_image 1 0)
          < sp_threshold overflow_split_point)
   \<and> sp_compute_pixel_difference overflow_split_point overflow_sample = 32768
   \<and> evaluate overflow_split_point overflow_sample = None
   \<and> evaluate overflow_split_point overflow_sample \<noteq> Some RIGHT"
  by (simp add: evaluate_def sp_compute_pixel_difference_def compute_pixel_value_def
      pixel_of_scalar_def padded_pixel_def overflow_image_def overflow_sample_def
      overflow_split_point_def Let_def)

section \<open>Serial accumulation of split statistics\<close>

text \<open>
  C1: \<^verbatim>\<open>compute_split_statistics\<close> routes every sample into \<open>left[k]\<close> or \<open>right[k]\<close> by
  \<^verbatim>\<open>lazy_accumulate\<close> and then calls \<^verbatim>\<open>finish_lazy_accumulation\<close> on every \<open>left[k]\<close> and
  \<open>right[k]\<close>, so that the result equals the statistics of immediate accumulation. For
  one sample of label 5 with feature value 0 and the thresholds -0.5 and 0.5, immediate
  accumulation counts the sample in \<open>right[0]\<close> and \<open>left[1]\<close>. The code finishes only the
  statistics at the feature's first index, twice, so \<open>left[1]\<close> still holds the sample in
  its unflushed delta and reports no sample.
\<close>

theorem compute_split_statistics_unfinished:
  "\<exists>ss. compute_split_statistics histogram_statistics_type [one_pixel_sample] binary_candidates = Inr ss
     \<and> num_of_samples (right_statistics ss ! 0) = 1
     \<and> num_of_samples (left_statistics ss ! 1) = 0
     \<and> histogram (left_statistics ss ! 1) 5 = 0
     \<and> lazy_delta (left_statistics ss ! 1) = [5]
     \<and> num_of_samples
          (left_statistics
             (immediate_split_statistics histogram_statistics_type [one_pixel_sample] binary_candidates) ! 1) = 1
     \<and> histogram
          (left_statistics
             (immediate_split_statistics histogram_statistics_type [one_pixel_sample] binary_candidates) ! 1) 5 = 1
     \<and> ss \<noteq> immediate_split_statistics histogram_statistics_type [one_pixel_sample] binary_candidates"
  by (simp add: compute_split_statistics_def compute_split_statistics_feature_def
      immediate_split_statistics_def flattened_candidates_def binary_candidates_def
      add_feature_and_thresholds_def empty_candidates_def new_split_statistics_def
      update_left_statistics_def update_right_statistics_def left_direction_def
      compute_pixel_difference_def compute_pixel_value_def zero_feature_def
      one_pixel_sample_def one_pixel_image_def get_label_def
      histogram_statistics_type_def histogram_create_def histogram_accumulate_def
      histogram_lazy_accumulate_def histogram_finish_lazy_accumulation_def
      accumulate_label_def Let_def numeral_2_eq_2)

section \<open>Adaptive threshold range\<close>

text \<open>
  C5: with \<^verbatim>\<open>binary_images\<close> off and \<^verbatim>\<open>adaptive_threshold_range\<close> on, the thresholds of a
  feature are drawn from the minimum and maximum of its values over the samples, both
  set to 0 when the minimum is not below the maximum; when all samples have one value,
  all thresholds are 0. For a single sample of value -3 the claim asks for the range
  \<open>[0, 0]\<close>. The code starts the running maximum at \<^verbatim>\<open>numeric_limits<scalar_type>::min()\<close>,
  the smallest positive value, so a maximum that is not positive is never recorded: the
  range is from -3 to that limit, and the thresholds drawn are -3, not 0.
\<close>

theorem adaptive_range_keeps_positive_limit:
  "compute_pixel_difference neighbour_feature step_sample = - 3
   \<and> compute_adaptive_threshold_range [step_sample] neighbour_feature = (- 3, scalar_limits_min)
   \<and> 0 < scalar_limits_min
   \<and> compute_adaptive_threshold_range [step_sample] neighbour_feature \<noteq> (0, 0)
   \<and> (\<exists>rnd_engine'.
         sample_split_points adaptive_parameters [step_sample] neighbour_engine =
           Inr (\<lparr>candidates = [(neighbour_feature, [- 3, - 3])], total_size = 2\<rparr>, rnd_engine'))"
  by (simp add: sample_split_points_def offset_pool_def draw_feature_def draw_offset_def
      feature_thresholds_def compute_adaptive_threshold_range_def
      uniform_int_distribution_def uniform_real_distribution_def advance_def
      add_feature_and_thresholds_def empty_candidates_def
      compute_pixel_difference_def compute_pixel_value_def
      scalar_limits_max_def scalar_limits_min_def
      adaptive_parameters_def neighbour_engine_def neighbour_feature_def
      step_sample_def step_image_def Let_def numeral_2_eq_2 upto.simps)

section \<open>Candidate sets and their flattened indexing\<close>

lemma draw_thresholds_length:
  "draw_thresholds n lo hi rnd = (ts, rnd') \<Longrightarrow> length ts = n"
  by (induction n arbitrary: rnd ts rnd') (auto split: prod.splits)

lemma feature_thresholds_length:
  assumes "feature_thresholds P samples f r rnd = Inr (ts, r', rnd')"
  shows "length ts = thresholds_per_feature P"
  using assms
  by (auto simp: feature_thresholds_def thresholds_per_feature_def
      split: if_splits prod.splits dest: draw_thresholds_length)

lemma sample_features_uniform:
  assumes "sample_features P samples xs ys n r sp rnd = Inr (sp', rnd')"
    and "\<forall>c \<in> set (candidates sp). length (snd c) = thresholds_per_feature P"
    and "total_size sp = length (candidates sp) * thresholds_per_feature P"
  shows "(\<forall>c \<in> set (candidates sp'). length (snd c) = thresholds_per_feature P)
         \<and> total_size sp' = length (candidates sp') * thresholds_per_feature P
         \<and> length (candidates sp') = length (candidates sp) + n"
  using assms
proof (induction n arbitrary: r sp rnd)
  case 0
  then show ?case by simp
next
  case (Suc n)
  from Suc.prems(1) obtain f rnd1 ts r1 rnd2 where
    ft: "feature_thresholds P samples f r rnd1 = Inr (ts, r1, rnd2)" and
    rec: "sample_features P samples xs ys n r1 (add_feature_and_thresholds f ts sp) rnd2 = Inr (sp', rnd')"
    by (auto split: sum.splits prod.splits)
  have len: "length ts = thresholds_per_feature P"
    using ft by (rule feature_thresholds_length)
  have a: "\<forall>c \<in> set (candidates (add_feature_and_thresholds f ts sp)). length (snd c) = thresholds_per_feature P"
    using Suc.prems(2) len by (simp add: add_feature_and_thresholds_def)
  have b: "total_size (add_feature_and_thresholds f ts sp) =
      length (candidates (add_feature_and_thresholds f ts sp)) * thresholds_per_feature P"
    using Suc.prems(3) len by (simp add: add_feature_and_thresholds_def)
  from Suc.IH[OF rec a b] show ?case
    by (simp add: add_feature_and_thresholds_def)
qed

lemma sample_split_points_shape:
  assumes "sample_split_points P samples rnd = Inr (sp, rnd')"
  shows "(\<forall>c \<in> set (candidates sp). length (snd c) = thresholds_per_feature P)
         \<and> total_size sp = num_of_features P * thresholds_per_feature P
         \<and> length (candidates sp) = num_of_features P"
proof -
  from assms obtain xs ys where
    sf: "sample_features P samples xs ys (num_of_features P)
           (threshold_range_low P, threshold_range_high P) empty_candidates rnd = Inr (sp, rnd')"
    by (auto simp: sample_split_points_def split: sum.splits)
  from sample_features_uniform[OF sf] show ?thesis
    by (simp add: empty_candidates_def)
qed

lemma prior_thresholds_uniform:
  assumes "\<forall>c \<in> set cs. length (snd c) = m" and "j \<le> length cs"
  shows "prior_thresholds cs j = j * m"
proof -
  have "map (\<lambda>c. length (snd c)) (take j cs) = replicate j m"
  proof (rule nth_equalityI)
    show "length (map (\<lambda>c. length (snd c)) (take j cs)) = length (replicate j m)"
      using assms(2) by simp
  next
    fix i assume "i < length (map (\<lambda>c. length (snd c)) (take j cs))"
    then have i: "i < j" "i < length cs" using assms(2) by simp_all
    then have "cs ! i \<in> set cs" by simp
    with assms(1) i show "map (\<lambda>c. length (snd c)) (take j cs) ! i = replicate j m ! i"
      by simp
  qed
  then show ?thesis
    by (simp add: prior_thresholds_def sum_list_replicate)
qed

lemma get_split_point_thresholds_found:
  "i \<le> index \<Longrightarrow> index < i + length ts \<Longrightarrow>
   get_split_point_thresholds f ts i index = Inl (make_split_point f (ts ! (index - i)))"
proof (induction ts arbitrary: i)
  case Nil
  then show ?case by simp
next
  case (Cons t ts)
  show ?case
  proof (cases "i = index")
    case True
    then show ?thesis by simp
  next
    case False
    with Cons.prems have "Suc i \<le> index" "index < Suc i + length ts" by simp_all
    from Cons.IH[OF this] False Cons.prems show ?thesis
      by (simp add: Suc_diff_le nth_Cons')
  qed
qed

lemma get_split_point_thresholds_passed:
  "i + length ts \<le> index \<Longrightarrow> get_split_point_thresholds f ts i index = Inr (i + length ts)"
  by (induction ts arbitrary: i) auto

lemma get_split_point_loop_found:
  assumes "j < length cs" and "m < length (snd (cs ! j))"
  shows "get_split_point_loop cs i (i + prior_thresholds cs j + m) =
           Inr (make_split_point (fst (cs ! j)) (snd (cs ! j) ! m))"
  using assms
proof (induction cs arbitrary: i j)
  case Nil
  then show ?case by simp
next
  case (Cons c cs)
  obtain f ts where c: "c = (f, ts)" by (cases c)
  show ?case
  proof (cases j)
    case 0
    with Cons.prems c have "m < length ts" by simp
    then have "get_split_point_thresholds f ts i (i + m) = Inl (make_split_point f (ts ! m))"
      using get_split_point_thresholds_found[of i "i + m" ts f] by simp
    with 0 c show ?thesis by (simp add: prior_thresholds_def)
  next
    case (Suc j')
    with Cons.prems have j': "j' < length cs" and m: "m < length (snd (cs ! j'))" by simp_all
    have idx: "i + prior_thresholds (c # cs) j + m = (i + length ts) + prior_thresholds cs j' + m"
      using Suc c by (simp add: prior_thresholds_def)
    have passed: "get_split_point_thresholds f ts i ((i + length ts) + prior_thresholds cs j' + m)
            = Inr (i + length ts)"
      by (rule get_split_point_thresholds_passed) simp
    have "get_split_point_loop (c # cs) i ((i + length ts) + prior_thresholds cs j' + m) =
            get_split_point_loop cs (i + length ts) ((i + length ts) + prior_thresholds cs j' + m)"
      unfolding c get_split_point_loop.simps passed by simp
    also have "\<dots> = Inr (make_split_point (fst (cs ! j')) (snd (cs ! j') ! m))"
      by (rule Cons.IH[OF j' m])
    finally show ?thesis
      unfolding idx using Suc by simp
  qed
qed

text \<open>
  With the same number of thresholds for every feature, the loop of
  \<^verbatim>\<open>compute_split_statistics\<close>, which computes the offset of a feature from its position,
  is the accumulation in the flattened indexing.
\<close>

lemma compute_split_statistics_loop_flattened:
  assumes "\<forall>c \<in> set cs. length (snd c) = m"
  shows "compute_split_statistics_loop S samples cs i ss = accumulate_flattened S samples cs (i * m) ss"
  using assms
proof (induction cs arbitrary: i ss)
  case Nil
  show ?case by simp
next
  case (Cons c cs)
  obtain feature thresholds where c: "c = (feature, thresholds)" by (cases c)
  from Cons.prems c have len: "length thresholds = m" and rest: "\<forall>c \<in> set cs. length (snd c) = m"
    by simp_all
  have next_offset: "Suc i * m = i * m + length thresholds"
    using len by simp
  show ?case
    unfolding c compute_split_statistics_loop.simps accumulate_flattened.simps Let_def
      Cons.IH[OF rest] next_offset
    by (simp add: len)
qed

text \<open>
  C9: every candidate set that \<^verbatim>\<open>sample_split_points\<close> returns has \<^verbatim>\<open>num_of_features\<close>
  features, each with the same number of thresholds (2 for binary images, otherwise
  \<^verbatim>\<open>num_of_thresholds\<close>), and \<^verbatim>\<open>total_size\<close> is the product of the two. On such a set
  \<^verbatim>\<open>compute_split_statistics\<close>, with its offset \<open>j * |thresholds|\<close> for feature \<open>j\<close>, is the
  accumulation in the flattened indexing, for every statistics type and all samples:
  the offset is the sum of the threshold-list lengths of the features before \<open>j\<close>, and
  \<^verbatim>\<open>get_split_point\<close> at that offset plus \<open>m\<close> returns feature \<open>j\<close> with its threshold \<open>m\<close>.
\<close>

theorem sample_split_points_flattened_indexing:
  assumes "sample_split_points parameters samples rnd_engine = Inr (split_points, rnd_engine')"
  shows "length (candidates split_points) = num_of_features parameters
    \<and> total_size split_points = num_of_features parameters * thresholds_per_feature parameters
    \<and> compute_split_statistics S training_samples split_points =
        accumulate_flattened S training_samples (candidates split_points) 0
          (new_split_statistics (total_size split_points) S)
    \<and> (\<forall>j < num_of_features parameters.
          length (snd (candidates split_points ! j)) = thresholds_per_feature parameters
          \<and> j * length (snd (candidates split_points ! j)) = prior_thresholds (candidates split_points) j
          \<and> (\<forall>m < thresholds_per_feature parameters.
                j * length (snd (candidates split_points ! j)) + m < total_size split_points
                \<and> get_split_point assertions split_points (j * length (snd (candidates split_points ! j)) + m) =
                    Inr (make_split_point (fst (candidates split_points ! j))
                           (snd (candidates split_points ! j) ! m))))"
proof -
  let ?cs = "candidates split_points"
  let ?n = "num_of_features parameters"
  let ?k = "thresholds_per_feature parameters"
  from sample_split_points_shape[OF assms] have
    uni: "\<forall>c \<in> set ?cs. length (snd c) = ?k" and
    tot: "total_size split_points = ?n * ?k" and
    len: "length ?cs = ?n"
    by simp_all
  have flat: "compute_split_statistics S training_samples split_points =
        accumulate_flattened S training_samples ?cs 0 (new_split_statistics (total_size split_points) S)"
    unfolding compute_split_statistics_def
    using compute_split_statistics_loop_flattened[OF uni, of S training_samples 0]
    by simp
  have per: "length (snd (?cs ! j)) = ?k
      \<and> j * length (snd (?cs ! j)) = prior_thresholds ?cs j
      \<and> (\<forall>m < ?k. j * length (snd (?cs ! j)) + m < total_size split_points
            \<and> get_split_point assertions split_points (j * length (snd (?cs ! j)) + m) =
              Inr (make_split_point (fst (?cs ! j)) (snd (?cs ! j) ! m)))"
    if j: "j < ?n" for j
  proof -
    from j len have "?cs ! j \<in> set ?cs" by simp
    with uni have lj: "length (snd (?cs ! j)) = ?k" by blast
    have pj: "prior_thresholds ?cs j = j * ?k"
      using uni j len by (intro prior_thresholds_uniform) simp_all
    have inner: "j * ?k + m < total_size split_points
        \<and> get_split_point assertions split_points (j * ?k + m) =
            Inr (make_split_point (fst (?cs ! j)) (snd (?cs ! j) ! m))"
      if m: "m < ?k" for m
    proof -
      have "j * ?k + m < Suc j * ?k" using m by simp
      also have "\<dots> \<le> ?n * ?k" using j by (intro mult_le_mono1) simp
      finally have lt: "j * ?k + m < total_size split_points" using tot by simp
      have "get_split_point_loop ?cs 0 (0 + prior_thresholds ?cs j + m) =
              Inr (make_split_point (fst (?cs ! j)) (snd (?cs ! j) ! m))"
        using j len m lj by (intro get_split_point_loop_found) simp_all
      with lt pj show ?thesis
        by (simp add: get_split_point_def)
    qed
    from lj pj inner show ?thesis by simp
  qed
  from len tot flat per show ?thesis by blast
qed

text \<open>
  Two features of binary images: the statistics of the second feature are at the
  flattened indices 2 and 3, where \<^verbatim>\<open>get_split_point\<close> finds its two thresholds.
\<close>

lemma sample_split_points_binary:
  "sample_split_points binary_parameters [step_sample] neighbour_engine =
     Inr (binary_split_points, (\<lambda>i. 0))"
  by (simp add: sample_split_points_def offset_pool_def draw_feature_def draw_offset_def
      feature_thresholds_def uniform_int_distribution_def advance_def
      add_feature_and_thresholds_def empty_candidates_def
      binary_parameters_def binary_split_points_def neighbour_engine_def neighbour_feature_def
      zero_feature_def Let_def numeral_2_eq_2 upto.simps)

lemma accumulate_flattened_binary:
  "\<exists>ss. accumulate_flattened histogram_statistics_type [step_sample] (candidates binary_split_points) 0
           (new_split_statistics (total_size binary_split_points) histogram_statistics_type) = Inr ss
     \<and> num_of_samples (left_statistics ss ! 0) = 1
     \<and> lazy_delta (left_statistics ss ! 1) = [0]
     \<and> num_of_samples (right_statistics ss ! 2) = 1
     \<and> lazy_delta (left_statistics ss ! 3) = [0]"
  by (simp add: compute_split_statistics_feature_def binary_split_points_def
      new_split_statistics_def update_left_statistics_def update_right_statistics_def
      left_direction_def compute_pixel_difference_def compute_pixel_value_def
      zero_feature_def neighbour_feature_def step_sample_def step_image_def get_label_def
      histogram_statistics_type_def histogram_create_def histogram_lazy_accumulate_def
      histogram_finish_lazy_accumulation_def accumulate_label_def Let_def
      numeral_2_eq_2 numeral_3_eq_3 eval_nat_numeral)

theorem sample_split_points_flattened_indexing_witness:
  "\<exists>split_points rnd_engine' ss.
     sample_split_points binary_parameters [step_sample] neighbour_engine = Inr (split_points, rnd_engine')
     \<and> length (candidates split_points) = 2
     \<and> total_size split_points = 4
     \<and> length (snd (candidates split_points ! 1)) = 2
     \<and> prior_thresholds (candidates split_points) 1 = 2
     \<and> get_split_point True split_points 1 = Inr (make_split_point neighbour_feature (1 / 2))
     \<and> get_split_point True split_points 2 = Inr (make_split_point zero_feature (- (1 / 2)))
     \<and> get_split_point True split_points 3 = Inr (make_split_point zero_feature (1 / 2))
     \<and> compute_split_statistics histogram_statistics_type [step_sample] split_points = Inr ss
     \<and> num_of_samples (left_statistics ss ! 0) = 1
     \<and> lazy_delta (left_statistics ss ! 1) = [0]
     \<and> num_of_samples (right_statistics ss ! 2) = 1
     \<and> lazy_delta (left_statistics ss ! 3) = [0]"
proof -
  note t = sample_split_points_flattened_indexing[OF sample_split_points_binary,
      of histogram_statistics_type "[step_sample]" True]
  from accumulate_flattened_binary obtain ss where
    a: "accumulate_flattened histogram_statistics_type [step_sample] (candidates binary_split_points) 0
           (new_split_statistics (total_size binary_split_points) histogram_statistics_type) = Inr ss" and
    v: "num_of_samples (left_statistics ss ! 0) = 1" "lazy_delta (left_statistics ss ! 1) = [0]"
       "num_of_samples (right_statistics ss ! 2) = 1" "lazy_delta (left_statistics ss ! 3) = [0]"
    by blast
  have k: "thresholds_per_feature binary_parameters = 2" "num_of_features binary_parameters = 2"
    by (simp_all add: thresholds_per_feature_def binary_parameters_def)
  from t have l: "length (candidates binary_split_points) = 2"
    and ts: "total_size binary_split_points = 4"
    and c: "compute_split_statistics histogram_statistics_type [step_sample] binary_split_points = Inr ss"
    unfolding k a by simp_all
  note per = t[unfolded k, THEN conjunct2, THEN conjunct2, THEN conjunct2, rule_format]
  have zero: "(0::nat) < 2" and one: "(1::nat) < 2" by simp_all
  note first = per[OF zero] and second = per[OF one]
  have l1: "length (snd (candidates binary_split_points ! 1)) = 2"
    by (rule second[THEN conjunct1])
  have p1: "prior_thresholds (candidates binary_split_points) 1 = 2"
    using second[THEN conjunct2, THEN conjunct1] unfolding l1 by simp
  have g1: "get_split_point True binary_split_points 1 = Inr (make_split_point neighbour_feature (1 / 2))"
    using first[THEN conjunct2, THEN conjunct2, rule_format, OF one, THEN conjunct2]
    by (simp add: binary_split_points_def)
  have g2: "get_split_point True binary_split_points 2 = Inr (make_split_point zero_feature (- (1 / 2)))"
    using second[THEN conjunct2, THEN conjunct2, rule_format, OF zero, THEN conjunct2]
    unfolding l1 by (simp add: binary_split_points_def)
  have g3: "get_split_point True binary_split_points 3 = Inr (make_split_point zero_feature (1 / 2))"
    using second[THEN conjunct2, THEN conjunct2, rule_format, OF one, THEN conjunct2]
    unfolding l1 by (simp add: binary_split_points_def)
  show ?thesis
    by (intro exI[of _ binary_split_points] exI[of _ "\<lambda>i. 0"] exI[of _ ss] conjI
        sample_split_points_binary l ts l1 p1 g1 g2 g3 c v)
qed

subsection \<open>Parameters for which candidates are returned\<close>

text \<open>
  The narrowing of the upper bound of a draw to \<^verbatim>\<open>offset_type\<close>: a bound below 32768 is
  kept, a bound from 65536 to 98303 loses 65536, and no bound grows.
\<close>

lemma narrowed_small:
  assumes "0 \<le> k" and "k < 32768"
  shows "sint (word_of_int k :: offset_type) = k"
proof -
  have "signed_take_bit 15 k = k"
    using assms by (intro signed_take_bit_int_eq_self) simp_all
  then show ?thesis by (simp add: sint_sbintrunc')
qed

lemma narrowed_wrapped:
  assumes "65536 \<le> k" and "k < 98304"
  shows "sint (word_of_int k :: offset_type) = k - 65536"
proof -
  have "take_bit 16 k = take_bit 16 (k - 65536)"
    by (simp add: take_bit_eq_mod)
  then have "(word_of_int k :: offset_type) = word_of_int (k - 65536)"
    by (simp add: word_of_int_eq_iff)
  moreover have "sint (word_of_int (k - 65536) :: offset_type) = k - 65536"
    using assms by (intro narrowed_small) simp_all
  ultimately show ?thesis by (simp only:)
qed

lemma narrowed_below:
  assumes "0 \<le> k"
  shows "sint (word_of_int k :: offset_type) \<le> k"
proof -
  have "signed_take_bit 15 k \<le> take_bit 16 k"
    by (simp add: signed_take_bit_eq_take_bit_minus)
  also have "\<dots> \<le> k"
    using assms by (simp add: take_bit_int_less_eq_self_iff)
  finally show ?thesis by (simp add: sint_sbintrunc')
qed

text \<open>A draw that returns reads an element of the pool.\<close>

lemma draw_offset_in_pool:
  assumes "draw_offset pool rnd = Inr (offset, rnd')"
  shows "offset \<in> set pool"
proof -
  let ?bound = "sint (word_of_int (int (length pool) - 1) :: offset_type)"
  from assms have b: "0 \<le> ?bound"
    by (simp add: draw_offset_def Let_def split: if_splits)
  have ne: "pool \<noteq> []"
  proof
    assume "pool = []"
    then have "?bound = - 1" by simp
    with b show False by simp
  qed
  then have "0 \<le> int (length pool) - 1"
    by (cases pool) simp_all
  then have le: "?bound \<le> int (length pool) - 1"
    by (rule narrowed_below)
  from assms b have "offset = pool ! (rnd 0 mod nat (?bound + 1))"
    by (simp add: draw_offset_def Let_def uniform_int_distribution_def split: if_splits)
  moreover have "rnd 0 mod nat (?bound + 1) < nat (?bound + 1)"
    using b by (intro mod_less_divisor) simp
  then have "rnd 0 mod nat (?bound + 1) < length pool"
    using le by linarith
  ultimately show ?thesis by simp
qed

lemma draw_offset_returns:
  assumes "(1 \<le> length pool \<and> length pool \<le> 32768)
           \<or> (65537 \<le> length pool \<and> length pool \<le> 98304)"
  shows "\<exists>offset rnd'. draw_offset pool rnd = Inr (offset, rnd')"
proof -
  have "0 \<le> sint (word_of_int (int (length pool) - 1) :: offset_type)"
    using assms
  proof
    assume a: "1 \<le> length pool \<and> length pool \<le> 32768"
    then have "sint (word_of_int (int (length pool) - 1) :: offset_type) = int (length pool) - 1"
      by (intro narrowed_small) linarith+
    then show ?thesis using a by linarith
  next
    assume a: "65537 \<le> length pool \<and> length pool \<le> 98304"
    then have "sint (word_of_int (int (length pool) - 1) :: offset_type) = int (length pool) - 1 - 65536"
      by (intro narrowed_wrapped) linarith+
    then show ?thesis using a by linarith
  qed
  then show ?thesis
    by (simp add: draw_offset_def Let_def split: prod.splits)
qed

lemma offset_pool_returns:
  assumes "sint range_low \<le> sint range_high" and "sint range_high < 32767"
  shows "\<exists>pool. offset_pool range_low range_high = Inr pool \<and> pool \<noteq> []
           \<and> length pool = 2 * nat (sint range_high - sint range_low + 1)"
proof -
  let ?pool = "concat (map (\<lambda>offset. [- word_of_int offset, word_of_int offset :: offset_type])
                         [sint range_low..sint range_high])"
  have "length ?pool = 2 * length [sint range_low..sint range_high]"
    by (induction "[sint range_low..sint range_high]") (simp_all add: length_concat comp_def sum_list_triv)
  then have len: "length ?pool = 2 * nat (sint range_high - sint range_low + 1)"
    by simp
  then have "?pool \<noteq> []" using assms(1) by auto
  with len assms(2) show ?thesis by (simp add: offset_pool_def)
qed

lemma draw_feature_returns:
  assumes x: "(1 \<le> length xs \<and> length xs \<le> 32768) \<or> (65537 \<le> length xs \<and> length xs \<le> 98304)"
    and y: "(1 \<le> length ys \<and> length ys \<le> 32768) \<or> (65537 \<le> length ys \<and> length ys \<le> 98304)"
  shows "\<exists>feature rnd'. draw_feature xs ys rnd = Inr (feature, rnd')"
proof -
  from draw_offset_returns[OF x] obtain o1 r1 where 1: "draw_offset xs rnd = Inr (o1, r1)"
    by blast
  from draw_offset_returns[OF y] obtain o2 r2 where 2: "draw_offset ys r1 = Inr (o2, r2)"
    by blast
  from draw_offset_returns[OF x] obtain o3 r3 where 3: "draw_offset xs r2 = Inr (o3, r3)"
    by blast
  from draw_offset_returns[OF y] obtain o4 r4 where 4: "draw_offset ys r3 = Inr (o4, r4)"
    by blast
  from 1 2 3 4 show ?thesis by (simp add: draw_feature_def)
qed

lemma compute_adaptive_threshold_range_ordered:
  "compute_adaptive_threshold_range samples feature = (range_low, range_high) \<Longrightarrow>
   range_low \<le> range_high"
  by (auto simp: compute_adaptive_threshold_range_def split: prod.splits if_splits)

lemma feature_thresholds_returns:
  assumes "binary_images parameters \<or> adaptive_threshold_range parameters \<or> fst r \<le> snd r"
  shows "\<exists>thresholds r' rnd'. feature_thresholds parameters samples feature r rnd = Inr (thresholds, r', rnd')
           \<and> (binary_images parameters \<or> adaptive_threshold_range parameters \<or> fst r' \<le> snd r')"
proof (cases "binary_images parameters")
  case True
  then show ?thesis by (simp add: feature_thresholds_def)
next
  case False
  obtain lo hi where range: "(if adaptive_threshold_range parameters
               then compute_adaptive_threshold_range samples feature else r) = (lo, hi)"
    by (cases "if adaptive_threshold_range parameters
               then compute_adaptive_threshold_range samples feature else r")
  have le: "lo \<le> hi"
  proof (cases "adaptive_threshold_range parameters")
    case True
    with range show ?thesis by (auto dest: compute_adaptive_threshold_range_ordered)
  next
    case adaptive: False
    with range assms False show ?thesis by auto
  qed
  obtain ts rnd' where "draw_thresholds (num_of_thresholds parameters) lo hi rnd = (ts, rnd')"
    by (cases "draw_thresholds (num_of_thresholds parameters) lo hi rnd")
  with False range le show ?thesis
    by (simp add: feature_thresholds_def)
qed

lemma sample_features_returns:
  assumes x: "(1 \<le> length xs \<and> length xs \<le> 32768) \<or> (65537 \<le> length xs \<and> length xs \<le> 98304)"
    and y: "(1 \<le> length ys \<and> length ys \<le> 32768) \<or> (65537 \<le> length ys \<and> length ys \<le> 98304)"
    and "binary_images parameters \<or> adaptive_threshold_range parameters \<or> fst r \<le> snd r"
  shows "\<exists>split_points' rnd'. sample_features parameters samples xs ys n r split_points rnd
           = Inr (split_points', rnd')"
  using assms(3)
proof (induction n arbitrary: r split_points rnd)
  case 0
  show ?case by simp
next
  case (Suc n)
  from draw_feature_returns[OF x y] obtain feature rnd1 where
    f: "draw_feature xs ys rnd = Inr (feature, rnd1)"
    by blast
  from feature_thresholds_returns[OF Suc.prems] obtain ts r' rnd2 where
    t: "feature_thresholds parameters samples feature r rnd1 = Inr (ts, r', rnd2)" and
    r': "binary_images parameters \<or> adaptive_threshold_range parameters \<or> fst r' \<le> snd r'"
    by blast
  from Suc.IH[OF r'] f t show ?case by simp
qed

text \<open>
  \<^verbatim>\<open>sample_split_points\<close> returns a candidate set for offset ranges that are not empty and
  end below 32767, when the narrowed upper bound of the draws from their pools is not
  negative: the range spans at most 16384 offsets (a pool of at most 32768 entries), or
  more than 32768 and at most 49152 offsets (a pool of 65538 to 98304 entries); and for
  thresholds that are binary, adaptive or drawn from a range that is not empty.
\<close>

lemma sample_split_points_returns:
  assumes "sint (feature_offset_x_range_low parameters) \<le> sint (feature_offset_x_range_high parameters)"
    and "sint (feature_offset_x_range_high parameters) < 32767"
    and "sint (feature_offset_x_range_high parameters) - sint (feature_offset_x_range_low parameters) < 16384
         \<or> (32768 \<le> sint (feature_offset_x_range_high parameters) - sint (feature_offset_x_range_low parameters)
            \<and> sint (feature_offset_x_range_high parameters) - sint (feature_offset_x_range_low parameters) < 49152)"
    and "sint (feature_offset_y_range_low parameters) \<le> sint (feature_offset_y_range_high parameters)"
    and "sint (feature_offset_y_range_high parameters) < 32767"
    and "sint (feature_offset_y_range_high parameters) - sint (feature_offset_y_range_low parameters) < 16384
         \<or> (32768 \<le> sint (feature_offset_y_range_high parameters) - sint (feature_offset_y_range_low parameters)
            \<and> sint (feature_offset_y_range_high parameters) - sint (feature_offset_y_range_low parameters) < 49152)"
    and "binary_images parameters \<or> adaptive_threshold_range parameters
         \<or> threshold_range_low parameters \<le> threshold_range_high parameters"
  shows "\<exists>split_points rnd'. sample_split_points parameters samples rnd = Inr (split_points, rnd')"
proof -
  from offset_pool_returns[OF assms(1,2)] obtain xs where
    xs: "offset_pool (feature_offset_x_range_low parameters) (feature_offset_x_range_high parameters) = Inr xs"
    "xs \<noteq> []"
    "length xs = 2 * nat (sint (feature_offset_x_range_high parameters)
                          - sint (feature_offset_x_range_low parameters) + 1)"
    by blast
  from offset_pool_returns[OF assms(4,5)] obtain ys where
    ys: "offset_pool (feature_offset_y_range_low parameters) (feature_offset_y_range_high parameters) = Inr ys"
    "ys \<noteq> []"
    "length ys = 2 * nat (sint (feature_offset_y_range_high parameters)
                          - sint (feature_offset_y_range_low parameters) + 1)"
    by blast
  have lx: "(1 \<le> length xs \<and> length xs \<le> 32768) \<or> (65537 \<le> length xs \<and> length xs \<le> 98304)"
    using xs(3) assms(1,3) by linarith
  have ly: "(1 \<le> length ys \<and> length ys \<le> 32768) \<or> (65537 \<le> length ys \<and> length ys \<le> 98304)"
    using ys(3) assms(4,6) by linarith
  have r: "binary_images parameters \<or> adaptive_threshold_range parameters
      \<or> fst (threshold_range_low parameters, threshold_range_high parameters)
          \<le> snd (threshold_range_low parameters, threshold_range_high parameters)"
    using assms(7) by simp
  from sample_features_returns[OF lx ly r] xs(1) ys(1) show ?thesis
    by (simp add: sample_split_points_def)
qed

text \<open>
  A range of 32769 offsets gives a pool of 65538 entries; the narrowed upper bound of
  its draws is 1, and a draw returns one of the first two entries of the pool.
\<close>

lemma draw_offset_large_pool:
  assumes "length pool = 65538"
  shows "draw_offset pool rnd = Inr (pool ! (rnd 0 mod 2), advance rnd)"
proof -
  have "sint (word_of_int (int (length pool) - 1) :: offset_type) = 1"
    unfolding assms by simp
  then show ?thesis
    by (simp add: draw_offset_def Let_def uniform_int_distribution_def)
qed

section \<open>Double precision arithmetic\<close>

lemma double_value_sign: "0 \<le> double_value d \<longleftrightarrow> 0 \<le> fst d"
proof -
  have "(0::real) < 2 powi snd d" by simp
  from mult_le_cancel_right_pos[OF this, of 0 "real_of_int (fst d)"] show ?thesis
    by (simp add: double_value_def)
qed

lemma round_shift_nonneg: "0 \<le> m \<Longrightarrow> 0 \<le> round_shift m k"
  by (simp add: round_shift_def Let_def pos_imp_zdiv_nonneg_iff)

lemma round_to_double_nonneg: "0 \<le> m \<Longrightarrow> 0 \<le> fst (round_to_double m e)"
  by (simp add: round_to_double_def Let_def round_shift_nonneg)

lemma double_mult_nonneg: "0 \<le> fst a \<Longrightarrow> 0 \<le> fst b \<Longrightarrow> 0 \<le> fst (double_mult a b)"
  by (simp add: double_mult_def round_to_double_nonneg)

lemma double_of_nat_nonneg: "0 \<le> fst (double_of_nat n)"
  by (simp add: double_of_nat_def round_to_double_nonneg)

lemma double_of_nat_exact:
  assumes "n < 2 ^ 53"
  shows "double_of_nat n = (int n, 0)"
proof -
  have "bitlen \<bar>int n\<bar> \<le> 53"
    using assms by (simp add: bitlen_le_iff_power)
  then show ?thesis
    by (simp add: double_of_nat_def round_to_double_def Let_def)
qed

lemma round_shift_le:
  assumes "0 \<le> m"
  shows "real_of_int (round_shift m k) \<le> real_of_int m / 2 ^ k + 1"
proof -
  have "round_shift m k \<le> m div 2 ^ k + 1"
    by (simp add: round_shift_def Let_def)
  then have "real_of_int (round_shift m k) \<le> real_of_int (m div 2 ^ k) + 1"
    by linarith
  moreover have "real_of_int (m div 2 ^ k) \<le> real_of_int m / real_of_int (2 ^ k)"
    by (rule real_of_int_div4)
  ultimately show ?thesis by simp
qed

lemma round_to_double_le:
  assumes "0 \<le> m"
  shows "double_value (round_to_double m e) \<le> 2 * (real_of_int m * 2 powi e) + 2 powi (- 1074)"
proof -
  let ?k = "max (bitlen \<bar>m\<bar> - 53) (- 1074 - e)"
  have v0: "0 \<le> real_of_int m * 2 powi e" using assms by simp
  show ?thesis
  proof (cases "?k \<le> 0")
    case True
    then have "round_to_double m e = (m, e)"
      by (simp add: round_to_double_def Let_def)
    with v0 show ?thesis by (simp add: double_value_def)
  next
    case False
    then have k: "0 < ?k" using not_le by blast
    define k where "k = nat ?k"
    have kk: "int k = ?k" using k by (simp add: k_def)
    have "round_to_double m e = (round_shift m (nat ?k), e + ?k)"
      unfolding round_to_double_def Let_def by (rule if_not_P[OF False])
    then have r: "round_to_double m e = (round_shift m k, e + int k)"
      unfolding kk k_def[symmetric] .
    have p: "(2::real) powi (e + int k) = 2 powi e * 2 ^ k"
      by (simp add: power_int_add)
    have "double_value (round_to_double m e) = real_of_int (round_shift m k) * (2 powi e * 2 ^ k)"
      by (simp add: r double_value_def p)
    also have "\<dots> \<le> (real_of_int m / 2 ^ k + 1) * (2 powi e * 2 ^ k)"
      by (intro mult_right_mono round_shift_le[OF assms]) simp
    also have "\<dots> = real_of_int m * 2 powi e + 2 powi (e + int k)"
      unfolding p by (simp add: field_simps)
    finally have b1: "double_value (round_to_double m e) \<le> real_of_int m * 2 powi e + 2 powi (e + int k)" .
    have "2 powi (e + int k) \<le> real_of_int m * 2 powi e + 2 powi (- 1074)"
    proof (cases "bitlen \<bar>m\<bar> - 53 \<le> - 1074 - e")
      case True
      then have "e + int k = - 1074" unfolding kk by simp
      with v0 show ?thesis by simp
    next
      case False
      then have ke: "int k = bitlen \<bar>m\<bar> - 53" unfolding kk by simp
      with k kk have bl: "0 < bitlen m" using assms by simp
      then have mpos: "0 < m" by (simp add: bitlen_alt_def split: if_splits)
      from bitlen_bounds[OF mpos] have lo: "2 ^ nat (bitlen m - 1) \<le> m" by simp
      have "k \<le> nat (bitlen m - 1)" using ke assms by simp
      then have pk: "(2::int) ^ k \<le> 2 ^ nat (bitlen m - 1)"
        by (intro power_increasing) simp_all
      have "2 ^ k \<le> m" using pk lo by (rule order_trans)
      then have "(2::real) ^ k \<le> real_of_int m"
        by (metis of_int_le_iff of_int_numeral of_int_power)
      then have "2 powi e * (2::real) ^ k \<le> 2 powi e * real_of_int m"
        by (intro mult_left_mono) simp_all
      then have le: "2 powi e * (2::real) ^ k \<le> real_of_int m * 2 powi e"
        by (simp only: mult.commute)
      have "(0::real) \<le> 2 powi (- 1074)" by simp
      from add_mono[OF le this] show ?thesis unfolding p by simp
    qed
    with b1 show ?thesis by simp
  qed
qed

lemma double_mult_value_le:
  assumes "0 \<le> fst a" "0 \<le> fst b"
  shows "double_value (double_mult a b) \<le> 2 * (double_value a * double_value b) + 2 powi (- 1074)"
proof -
  have "0 \<le> fst a * fst b" using assms by simp
  from round_to_double_le[OF this, of "snd a + snd b"]
  show ?thesis
    by (simp add: double_mult_def double_value_def power_int_add mult_ac)
qed

lemma small_power: "(2::real) powi (- 1074) \<le> 1"
  by (simp add: power_int_minus field_simps)

text \<open>
  For a bagging fraction between 0 and 1 and a number of images below \<open>2 ^ 64\<close> the
  product is finite.
\<close>

lemma bagging_product_finite:
  assumes "0 \<le> double_value b" and "double_value b \<le> 1" and "n < 2 ^ 64"
  shows "double_finite (double_mult b (double_of_nat n))"
proof -
  have b0: "0 \<le> fst b" using assms(1) by (simp add: double_value_sign)
  have n0: "0 \<le> fst (double_of_nat n)" by (rule double_of_nat_nonneg)
  have "double_value (double_of_nat n) \<le> 2 * (real_of_int (int n) * 2 powi 0) + 2 powi (- 1074)"
    unfolding double_of_nat_def by (rule round_to_double_le) simp
  also have "\<dots> \<le> 2 * real n + 1" using small_power by simp
  also have "\<dots> \<le> 2 * 2 ^ 64 + 1"
  proof -
    have "real n \<le> 2 ^ 64" using assms(3)
      by (metis less_imp_le of_nat_le_iff of_nat_numeral of_nat_power)
    then show ?thesis by simp
  qed
  finally have dn: "double_value (double_of_nat n) \<le> 2 * 2 ^ 64 + 1" .
  have dn0: "0 \<le> double_value (double_of_nat n)" using n0 by (simp add: double_value_sign)
  have "double_value b * double_value (double_of_nat n) \<le> 1 * (2 * 2 ^ 64 + 1)"
    using assms(1,2) dn dn0 by (intro mult_mono) simp_all
  then have pr: "double_value b * double_value (double_of_nat n) \<le> 2 * 2 ^ 64 + 1" by simp
  have "double_value (double_mult b (double_of_nat n))
          \<le> 2 * (double_value b * double_value (double_of_nat n)) + 2 powi (- 1074)"
    using b0 n0 by (rule double_mult_value_le)
  also have "\<dots> \<le> 2 * (2 * 2 ^ 64 + 1) + 1"
    using pr small_power by (intro add_mono mult_left_mono) simp_all
  also have "\<dots> < 2 ^ 1024" by simp
  finally have up: "double_value (double_mult b (double_of_nat n)) < 2 ^ 1024" .
  have "0 \<le> double_value (double_mult b (double_of_nat n))"
    using b0 n0 by (simp add: double_value_sign double_mult_nonneg)
  with up show ?thesis by (simp add: double_finite_def)
qed

section \<open>Bagging batches\<close>

lemma draw_image_indices_draws:
  "draw_image_indices k n rnd =
     (map (\<lambda>i. nat (fst (uniform_int_distribution 0 (int n - 1) ((advance ^^ i) rnd)))) [0..<k],
      (advance ^^ k) rnd)"
proof (induction k arbitrary: rnd)
  case 0
  show ?case by simp
next
  case (Suc k)
  have u: "uniform_int_distribution 0 (int n - 1) rnd =
             (fst (uniform_int_distribution 0 (int n - 1) rnd), advance rnd)"
    by (simp add: uniform_int_distribution_def)
  have m: "map (\<lambda>i. nat (fst (uniform_int_distribution 0 (int n - 1) ((advance ^^ i) rnd)))) [0..<Suc k]
      = nat (fst (uniform_int_distribution 0 (int n - 1) rnd))
        # map (\<lambda>i. nat (fst (uniform_int_distribution 0 (int n - 1) ((advance ^^ i) (advance rnd))))) [0..<k]"
    by (simp only: upt_conv_Cons[OF zero_less_Suc] list.map map_Suc_upt[symmetric] map_map comp_def
        funpow_Suc_right funpow_0 id_apply)
  show ?case
    unfolding draw_image_indices.simps
    by (subst u) (simp only: prod.case Suc.IH m funpow_Suc_right comp_def)
qed

lemma draw_in_range:
  "0 < n \<Longrightarrow> nat (fst (uniform_int_distribution 0 (int n - 1) rnd)) < n"
  by (simp add: uniform_int_distribution_def)

lemma concat_slices:
  "k \<le> d \<Longrightarrow>
   concat (map (\<lambda>i. drop (i * m div d) (take ((i + 1) * m div d) xs)) [0..<k]) = take (k * m div d) xs"
proof (induction k)
  case 0
  then show ?case by simp
next
  case (Suc k)
  have mono: "k * m div d \<le> Suc k * m div d"
    by (intro div_le_mono) simp
  have "take (k * m div d) xs @ drop (k * m div d) (take (Suc k * m div d) xs) =
          take (Suc k * m div d) xs"
  proof -
    have "take (k * m div d) (take (Suc k * m div d) xs) = take (k * m div d) xs"
      using mono by (simp add: min_absorb1)
    then show ?thesis
      by (metis append_take_drop_id)
  qed
  with Suc show ?case by simp
qed

lemma round_half_away_nonneg: "0 \<le> v \<Longrightarrow> round_half_away v = round v"
  by (simp add: round_half_away_def round_def)

text \<open>
  C7: for \<open>n \<ge> 1\<close> images, a bagging fraction \<open>b \<ge> 0\<close> and \<open>B \<ge> 1\<close> batches,
  \<^verbatim>\<open>compute_sample_bag_batches\<close> returns exactly \<open>B\<close> batches whose concatenation is the
  nondecreasing sort of \<open>M\<close> drawn indices, where \<open>M\<close> is the product of the doubles \<open>b\<close> and
  \<open>n\<close> (which is to be finite), rounded. Entry \<open>i\<close> of the bag is one draw of
  \<^verbatim>\<open>uniform_int_distribution\<close> over \<open>[0, n - 1]\<close>, from the engine as the \<open>i\<close> draws before it
  left it (with replacement), and the engine is returned after \<open>M\<close> draws. Batch \<open>i\<close> is the
  slice of the sorted list from \<open>i * M div B\<close> to \<open>(i + 1) * M div B\<close> and has that many
  elements.
\<close>

theorem compute_sample_bag_batches_partition:
  assumes "1 \<le> n" and "0 \<le> double_value (bagging_fraction parameters)" and "1 \<le> num_of_batches"
    and "double_finite (double_mult (bagging_fraction parameters) (double_of_nat n))"
  shows "\<exists>batches drawn.
      compute_sample_bag_batches parameters n num_of_batches rnd_engine =
        Inr (batches,
             (advance ^^ nat (round (double_value
                 (double_mult (bagging_fraction parameters) (double_of_nat n))))) rnd_engine)
      \<and> drawn =
          map (\<lambda>i. nat (fst (uniform_int_distribution 0 (int n - 1) ((advance ^^ i) rnd_engine))))
            [0..<nat (round (double_value
                 (double_mult (bagging_fraction parameters) (double_of_nat n))))]
      \<and> length drawn =
          nat (round (double_value (double_mult (bagging_fraction parameters) (double_of_nat n))))
      \<and> (\<forall>image_index \<in> set drawn. image_index < n)
      \<and> length batches = num_of_batches
      \<and> concat batches = sort drawn
      \<and> (\<forall>i < num_of_batches.
            batches ! i =
              drop (i * length drawn div num_of_batches)
                (take ((i + 1) * length drawn div num_of_batches) (sort drawn))
            \<and> length (batches ! i) =
                (i + 1) * length drawn div num_of_batches - i * length drawn div num_of_batches)"
proof -
  let ?p = "double_mult (bagging_fraction parameters) (double_of_nat n)"
  let ?M = "nat (round (double_value ?p))"
  let ?B = "num_of_batches"
  let ?drawn = "map (\<lambda>i. nat (fst (uniform_int_distribution 0 (int n - 1) ((advance ^^ i) rnd_engine))))
                  [0..<?M]"
  have "0 \<le> fst (bagging_fraction parameters)"
    using assms(2) by (simp add: double_value_sign)
  then have nonneg: "0 \<le> double_value ?p"
    by (simp add: double_value_sign double_mult_nonneg double_of_nat_nonneg)
  then have rh: "round_half_away (double_value ?p) = round (double_value ?p)"
    by (rule round_half_away_nonneg)
  have r0: "0 \<le> round (double_value ?p)"
    using nonneg by (simp add: round_def)
  have d: "draw_image_indices ?M n rnd_engine = (?drawn, (advance ^^ ?M) rnd_engine)"
    by (rule draw_image_indices_draws)
  let ?s = "sort ?drawn"
  let ?batches = "map (\<lambda>i. drop (i * ?M div ?B) (take ((i + 1) * ?M div ?B) ?s)) [0..<?B]"
  have len: "length ?drawn = ?M" by simp
  have rng: "\<forall>x \<in> set ?drawn. x < n"
  proof
    fix x assume "x \<in> set ?drawn"
    then obtain i where "x = nat (fst (uniform_int_distribution 0 (int n - 1) ((advance ^^ i) rnd_engine)))"
      by auto
    with assms(1) show "x < n" by (simp add: draw_in_range)
  qed
  have res: "compute_sample_bag_batches parameters n ?B rnd_engine =
               Inr (?batches, (advance ^^ ?M) rnd_engine)"
    using assms(1,4) r0
    by (simp add: compute_sample_bag_batches_def rh Let_def compute_batch_start_index_def d
        del: upt_Suc map_map)
  have "concat ?batches = take (?B * ?M div ?B) ?s"
    by (rule concat_slices) simp
  also have "\<dots> = ?s" using assms(3) by simp
  finally have cc: "concat ?batches = ?s" .
  have each: "\<forall>i < ?B. ?batches ! i =
        drop (i * length ?drawn div ?B) (take ((i + 1) * length ?drawn div ?B) ?s)
      \<and> length (?batches ! i) = (i + 1) * length ?drawn div ?B - i * length ?drawn div ?B"
  proof (intro allI impI)
    fix i assume i: "i < ?B"
    have "(i + 1) * ?M div ?B \<le> ?B * ?M div ?B"
      using i by (intro div_le_mono mult_le_mono1) simp
    also have "\<dots> = ?M" using assms(3) by simp
    finally have "(i + 1) * ?M div ?B \<le> length ?s" by simp
    then show "?batches ! i = drop (i * length ?drawn div ?B) (take ((i + 1) * length ?drawn div ?B) ?s)
      \<and> length (?batches ! i) = (i + 1) * length ?drawn div ?B - i * length ?drawn div ?B"
      using i unfolding len by (simp add: min_absorb2)
  qed
  from res len rng cc each show ?thesis
    by (intro exI[of _ ?batches] exI[of _ ?drawn] conjI) (simp_all only: length_map length_upt refl)
qed

text \<open>
  The product of the double nearest to 0.3 and 5 is the double 1.5, and the bag has two
  entries; the product of the reals lies below 1.5.
\<close>

lemma third_product:
  "double_mult (bagging_fraction third_parameters) (double_of_nat 5) = (6755399441055744, - 52)"
proof -
  have "double_mult (5404319552844595, - 54) (double_of_nat 5) = (6755399441055744, - 52)"
    by code_simp
  then show ?thesis by (simp add: third_parameters_def)
qed

lemma third_bag_size:
  "nat (round (double_value (double_mult (bagging_fraction third_parameters) (double_of_nat 5)))) = 2"
  unfolding third_product by (simp add: double_value_def round_def)

lemma third_exact_product:
  "nat (round (double_value (bagging_fraction third_parameters) * 5)) = 1"
  by (simp add: third_parameters_def double_value_def round_def)

lemma descending_draws:
  "map (\<lambda>i. nat (fst (uniform_int_distribution 0 (int 5 - 1) ((advance ^^ i) descending_engine))))
     [0..<2] = [2, 1]"
  by (simp add: uniform_int_distribution_def advance_def descending_engine_def upt_rec numeral_2_eq_2)

theorem compute_sample_bag_batches_partition_witness:
  "\<exists>batches rnd_engine'.
     compute_sample_bag_batches third_parameters 5 2 descending_engine = Inr (batches, rnd_engine')
     \<and> nat (round (double_value (double_mult (bagging_fraction third_parameters) (double_of_nat 5)))) = 2
     \<and> rnd_engine' = (advance ^^ 2) descending_engine
     \<and> length batches = 2 \<and> concat batches = [1, 2] \<and> batches ! 0 = [1] \<and> batches ! 1 = [2]"
proof -
  have h: "(1::nat) \<le> 5" "0 \<le> double_value (bagging_fraction third_parameters)" "(1::nat) \<le> 2"
    "double_finite (double_mult (bagging_fraction third_parameters) (double_of_nat 5))"
    unfolding third_product
    by (simp_all add: third_parameters_def double_value_def double_finite_def)
  from compute_sample_bag_batches_partition[OF h, of descending_engine]
  obtain batches drawn where
    r: "compute_sample_bag_batches third_parameters 5 2 descending_engine =
          Inr (batches, (advance ^^ 2) descending_engine)" and
    d: "drawn = [2, 1]" and
    l: "length batches = 2" and
    c: "concat batches = sort drawn" and
    e: "\<forall>i < 2. batches ! i = drop (i * length drawn div 2) (take ((i + 1) * length drawn div 2) (sort drawn))
          \<and> length (batches ! i) = (i + 1) * length drawn div 2 - i * length drawn div 2"
    unfolding third_bag_size descending_draws by blast
  have s: "sort drawn = [1, 2]"
    by (simp add: d)
  from e have "batches ! 0 = [1]" and "batches ! 1 = [2]"
    unfolding s d by simp_all
  with r l c s third_bag_size show ?thesis
    by simp
qed

section \<open>Sampling pixels from an image\<close>

lemma subsample_loop_length:
  "subsample_loop n i non_background acc rnd = (new_samples, rnd') \<Longrightarrow>
   length new_samples = length acc + n"
  by (induction n arbitrary: i non_background acc rnd)
     (auto simp: Let_def split: prod.splits)

text \<open>
  With a fraction below 1 the number of samples taken from an image is the smaller of
  the rounded share of its area and the number of its non-background pixels.
\<close>

lemma image_samples_count:
  assumes "image_samples parameters img rnd = Inr (new_samples, rnd')"
    and "double_value (samples_per_image_fraction parameters) < 1"
  shows "length new_samples =
           min (nat (round_half_away (double_value
                       (double_mult (double_mult (samples_per_image_fraction parameters)
                                       (double_of_nat (width img)))
                          (double_of_nat (height img))))))
               (length (non_background_samples parameters img))"
  using assms
  by (auto simp: image_samples_def Let_def split: if_splits dest: subsample_loop_length)

lemma non_background_samples_row:
  "non_background_samples subsample_parameters row_image =
     [\<lparr>image_ptr = row_image, sample_x = 0, sample_y = 0\<rparr>,
      \<lparr>image_ptr = row_image, sample_x = 1, sample_y = 0\<rparr>,
      \<lparr>image_ptr = row_image, sample_x = 2, sample_y = 0\<rparr>]"
  by (simp add: non_background_samples_def subsample_parameters_def row_image_def get_label_def
      upt_rec numeral_3_eq_3 Let_def)

lemma row_product:
  "double_mult (double_mult (samples_per_image_fraction subsample_parameters)
                  (double_of_nat (width row_image)))
     (double_of_nat (height row_image)) = (6079859496950170, - 51)"
proof -
  have "double_mult (double_mult (8106479329266893, - 53) (double_of_nat 3)) (double_of_nat 1)
          = (6079859496950170, - 51)"
    by code_simp
  then show ?thesis by (simp add: subsample_parameters_def row_image_def)
qed

lemma round_half_away_row:
  "round_half_away (double_value
     (double_mult (double_mult (samples_per_image_fraction subsample_parameters)
                     (double_of_nat (width row_image)))
        (double_of_nat (height row_image)))) = 3"
  unfolding row_product by (simp add: double_value_def round_half_away_def)

lemma row_product_finite:
  "double_finite
     (double_mult (double_mult (samples_per_image_fraction subsample_parameters)
                     (double_of_nat (width row_image)))
        (double_of_nat (height row_image)))"
  unfolding row_product by (simp add: double_value_def double_finite_def)

lemma subsample_fraction_below_1:
  "double_value (samples_per_image_fraction subsample_parameters) < 1"
  by (simp add: subsample_parameters_def double_value_def)

lemma subsample_loop_zero_engine:
  "subsample_loop (Suc (Suc (Suc 0))) 0 [a, b, c] [] zero_engine = ([a, c, a], zero_engine)"
  by (simp add: uniform_int_distribution_def zero_engine_def advance_def swap_elements_def Let_def)

lemma image_samples_row:
  "image_samples subsample_parameters row_image zero_engine =
     Inr ([\<lparr>image_ptr = row_image, sample_x = 0, sample_y = 0\<rparr>,
           \<lparr>image_ptr = row_image, sample_x = 2, sample_y = 0\<rparr>,
           \<lparr>image_ptr = row_image, sample_x = 0, sample_y = 0\<rparr>], zero_engine)"
proof -
  have m: "min (nat 3) (length (non_background_samples subsample_parameters row_image))
             = Suc (Suc (Suc 0))"
    by (simp add: non_background_samples_row)
  show ?thesis
    unfolding image_samples_def Let_def round_half_away_row m
    unfolding non_background_samples_row subsample_loop_zero_engine
    using subsample_fraction_below_1 row_product_finite by simp
qed

text \<open>
  C2: with a fraction below 1, \<^verbatim>\<open>load_samples_from_image\<close> appends
  \<open>min (round (f * W * H), number of non-background pixels)\<close> samples, which have
  pairwise distinct coordinates, drawn without replacement. For an image of three
  non-background pixels in a row and \<open>f = 0.9\<close> the count is 3, as claimed, and the
  claim asks for the three pixels once each. The code swaps the drawn element with the
  last element of the vector in every round, not with the end of the unsampled prefix,
  so a sample already taken returns into the prefix: with an engine whose draws are all
  index 0 the pixel (0, 0) is appended twice and (1, 0) never.
\<close>

theorem load_samples_from_image_repeats_pixel:
  "\<exists>st'. load_samples_from_image (memory_image_provider True [row_image]) subsample_parameters 0
             empty_sample_provider zero_engine = Inr (st', zero_engine)
     \<and> map (\<lambda>sample. (sample_x sample, sample_y sample)) (provider_samples st')
         = [(0, 0), (2, 0), (0, 0)]
     \<and> \<not> distinct (map (\<lambda>sample. (sample_x sample, sample_y sample)) (provider_samples st'))
     \<and> length (provider_samples st') =
         min (nat (round_half_away (double_value
                     (double_mult (double_mult (samples_per_image_fraction subsample_parameters)
                                     (double_of_nat (width row_image)))
                        (double_of_nat (height row_image))))))
             (length (non_background_samples subsample_parameters row_image))
     \<and> length (non_background_samples subsample_parameters row_image) = 3"
  by (simp add: load_samples_from_image_def ensure_image_is_loaded_def memory_image_provider_def
      memory_get_image_def empty_sample_provider_def image_samples_row round_half_away_row
      non_background_samples_row)

section \<open>Loading a batch of images\<close>

lemma nat_round_half_away: "nat (round_half_away v) = nat (round v)"
proof (cases "0 \<le> v")
  case True
  then show ?thesis by (simp add: round_half_away_def round_def)
next
  case False
  then have "\<lceil>v - 1 / 2\<rceil> \<le> 0" and "\<lfloor>v + 1 / 2\<rfloor> \<le> 0"
    by (simp_all add: ceiling_le_iff floor_le_iff)
  with False show ?thesis by (simp add: round_half_away_def round_def)
qed

lemma subsample_loop_tail_swaps:
  "i + n \<le> length non_background \<Longrightarrow>
   subsample_loop n i non_background acc rnd =
     (acc @ tail_swaps non_background
              (map (\<lambda>j. nat (fst (uniform_int_distribution 0
                                     (int (length non_background) - 1 - int (i + j))
                                     ((advance ^^ j) rnd))))
                 [0..<n]),
      (advance ^^ n) rnd)"
proof (induction n arbitrary: i non_background acc rnd)
  case 0
  show ?case by simp
next
  case (Suc n)
  let ?len = "length non_background"
  let ?d = "nat (fst (uniform_int_distribution 0 (int ?len - 1 - int i) rnd))"
  let ?swapped = "swap_elements non_background ?d (?len - 1)"
  from Suc.prems have pos: "0 < ?len" by linarith
  then have ne: "non_background \<noteq> []" by auto
  have u: "uniform_int_distribution 0 (int ?len - 1 - int i) rnd =
             (fst (uniform_int_distribution 0 (int ?len - 1 - int i) rnd), advance rnd)"
    by (simp add: uniform_int_distribution_def)
  have sw: "?swapped = non_background[?d := last non_background, ?len - 1 := non_background ! ?d]"
    using ne by (simp add: swap_elements_def last_conv_nth)
  have lsw: "length ?swapped = ?len"
    by (simp add: swap_elements_def)
  have last_sw: "last ?swapped = non_background ! ?d"
    using pos ne unfolding sw by (simp add: last_conv_nth)
  have pre: "Suc i + n \<le> length ?swapped"
    using Suc.prems lsw by simp
  have m: "map (\<lambda>j. nat (fst (uniform_int_distribution 0 (int ?len - 1 - int (i + j))
                                  ((advance ^^ j) rnd)))) [0..<Suc n]
      = ?d # map (\<lambda>j. nat (fst (uniform_int_distribution 0 (int ?len - 1 - int (Suc i + j))
                                     ((advance ^^ j) (advance rnd))))) [0..<n]"
    by (simp only: upt_conv_Cons[OF zero_less_Suc] list.map map_Suc_upt[symmetric] map_map comp_def
        funpow_Suc_right funpow_0 id_apply add_0_right add_Suc_right add_Suc)
  have "subsample_loop (Suc n) i non_background acc rnd =
          subsample_loop n (Suc i) ?swapped (acc @ [last ?swapped]) (advance rnd)"
    unfolding subsample_loop.simps by (subst u) (simp only: prod.case Let_def)
  also have "\<dots> =
      ((acc @ [last ?swapped]) @ tail_swaps ?swapped
         (map (\<lambda>j. nat (fst (uniform_int_distribution 0 (int (length ?swapped) - 1 - int (Suc i + j))
                                 ((advance ^^ j) (advance rnd))))) [0..<n]),
       (advance ^^ n) (advance rnd))"
    by (rule Suc.IH[OF pre])
  also have "\<dots> =
      (acc @ tail_swaps non_background
               (map (\<lambda>j. nat (fst (uniform_int_distribution 0 (int ?len - 1 - int (i + j))
                                      ((advance ^^ j) rnd)))) [0..<Suc n]),
       (advance ^^ Suc n) rnd)"
    unfolding m tail_swaps.simps lsw last_sw
    by (simp only: sw append_assoc append_Cons append_Nil funpow_Suc_right comp_def)
  finally show ?case .
qed

text \<open>
  The samples of one call of \<^verbatim>\<open>load_samples_from_image\<close> are those of one occurrence.
\<close>

lemma image_samples_occurrence:
  assumes "image_samples parameters img rnd = Inr (new_samples, rnd1)"
  shows "if double_value (samples_per_image_fraction parameters) < 1
         then new_samples =
                tail_swaps (non_background_samples parameters img)
                  (occurrence_draws
                     (occurrence_count (samples_per_image_fraction parameters) img
                        (length (non_background_samples parameters img)))
                     (length (non_background_samples parameters img)) rnd)
              \<and> rnd1 = (advance ^^ occurrence_count (samples_per_image_fraction parameters) img
                                     (length (non_background_samples parameters img))) rnd
         else new_samples = non_background_samples parameters img \<and> rnd1 = rnd"
proof (cases "double_value (samples_per_image_fraction parameters) < 1")
  case False
  with assms show ?thesis by (simp add: image_samples_def)
next
  case True
  let ?nb = "non_background_samples parameters img"
  let ?count = "occurrence_count (samples_per_image_fraction parameters) img (length ?nb)"
  from assms True have "subsample_loop ?count 0 ?nb [] rnd = (new_samples, rnd1)"
    by (simp add: image_samples_def Let_def occurrence_count_def nat_round_half_away
        split: if_splits)
  moreover have "0 + ?count \<le> length ?nb"
    by (simp add: occurrence_count_def)
  from subsample_loop_tail_swaps[OF this, of "[]" rnd]
  have "subsample_loop ?count 0 ?nb [] rnd =
          (tail_swaps ?nb (occurrence_draws ?count (length ?nb) rnd), (advance ^^ ?count) rnd)"
    by (simp add: occurrence_draws_def)
  ultimately show ?thesis using True by simp
qed

lemma ensure_image_is_loaded_from_cases:
  assumes "ensure_image_is_loaded_from provider i old st = Inr st1"
  shows "(image_map st i \<noteq> None \<and> st1 = st)
    \<or> (image_map st i = None
        \<and> (\<exists>img. old i = Some img \<and> st1 = st\<lparr>image_map := (image_map st)(i \<mapsto> img)\<rparr>))
    \<or> (image_map st i = None \<and> old i = None
        \<and> (\<exists>img. get_image provider i = Inr img
              \<and> st1 = st\<lparr>image_map := (image_map st)(i \<mapsto> img),
                         provider_requests := provider_requests st @ [i]\<rparr>))"
  using assms
  by (auto simp: ensure_image_is_loaded_from_def split: option.splits sum.splits)

lemma load_samples_from_image_loaded:
  assumes "load_samples_from_image provider parameters i st1 rnd = Inr (st2, rnd1)"
    and "image_map st1 i = Some img"
  shows "\<exists>new_samples. image_samples parameters img rnd = Inr (new_samples, rnd1)
           \<and> st2 = st1\<lparr>provider_samples := provider_samples st1 @ new_samples\<rparr>"
  using assms
  by (auto simp: load_samples_from_image_def ensure_image_is_loaded_def
      split: sum.splits option.splits)

text \<open>
  One round of the loop of \<^verbatim>\<open>load_sample_batch\<close>: the image of the index is in the map
  afterwards, taken from the map itself, else from the previous map, else from the
  provider, which is asked only in the last case; the samples of one occurrence are
  appended.
\<close>

lemma load_sample_batch_round:
  assumes e: "ensure_image_is_loaded_from provider i old st = Inr st1"
    and l: "load_samples_from_image provider parameters i st1 rnd = Inr (st2, rnd1)"
  shows "\<exists>img new_samples requests.
      image_map st2 = (image_map st)(i \<mapsto> img)
      \<and> (case image_map st i of
            Some present \<Rightarrow> img = present \<and> requests = []
          | None \<Rightarrow>
              (case old i of
                 Some previous \<Rightarrow> img = previous \<and> requests = []
               | None \<Rightarrow> get_image provider i = Inr img \<and> requests = [i]))
      \<and> provider_requests st2 = provider_requests st @ requests
      \<and> provider_samples st2 = provider_samples st @ new_samples
      \<and> image_samples parameters img rnd = Inr (new_samples, rnd1)"
proof -
  from ensure_image_is_loaded_from_cases[OF e]
  obtain img requests where
    m1: "image_map st1 = (image_map st)(i \<mapsto> img)" and
    c: "case image_map st i of
            Some present \<Rightarrow> img = present \<and> requests = []
          | None \<Rightarrow>
              (case old i of
                 Some previous \<Rightarrow> img = previous \<and> requests = []
               | None \<Rightarrow> get_image provider i = Inr img \<and> requests = [i])" and
    r1: "provider_requests st1 = provider_requests st @ requests" and
    s1: "provider_samples st1 = provider_samples st"
  proof (elim disjE conjE exE)
    assume a: "image_map st i \<noteq> None" "st1 = st"
    then obtain img where img: "image_map st i = Some img" by auto
    show ?thesis
    proof (rule that[of img "[]"])
      show "image_map st1 = (image_map st)(i \<mapsto> img)"
        using a img by (simp add: fun_upd_idem)
    qed (use a img in simp_all)
  next
    fix img
    assume a: "image_map st i = None" "old i = Some img"
      "st1 = st\<lparr>image_map := (image_map st)(i \<mapsto> img)\<rparr>"
    show ?thesis
      by (rule that[of img "[]"]) (use a in simp_all)
  next
    fix img
    assume a: "image_map st i = None" "old i = None" "get_image provider i = Inr img"
      "st1 = st\<lparr>image_map := (image_map st)(i \<mapsto> img),
                 provider_requests := provider_requests st @ [i]\<rparr>"
    show ?thesis
      by (rule that[of img "[i]"]) (use a in simp_all)
  qed
  have "image_map st1 i = Some img" using m1 by simp
  from load_samples_from_image_loaded[OF l this] obtain new_samples where
    "image_samples parameters img rnd = Inr (new_samples, rnd1)"
    "st2 = st1\<lparr>provider_samples := provider_samples st1 @ new_samples\<rparr>"
    by blast
  with m1 c r1 s1 show ?thesis
    by (intro exI[of _ img] exI[of _ new_samples] exI[of _ requests]) simp
qed

lemma load_sample_batch_loop_invariant:
  assumes "load_sample_batch_loop provider parameters old batch st rnd = Inr (st', rnd')"
  shows "image_map st \<subseteq>\<^sub>m image_map st'
    \<and> dom (image_map st') = dom (image_map st) \<union> set batch
    \<and> (\<forall>i \<in> set batch. image_map st i = None \<longrightarrow>
          (case old i of
             Some previous \<Rightarrow> image_map st' i = Some previous
           | None \<Rightarrow> \<exists>img. get_image provider i = Inr img \<and> image_map st' i = Some img))
    \<and> (\<exists>new_samples. provider_samples st' = provider_samples st @ new_samples
          \<and> occurrence_samples parameters (\<lambda>i. the (image_map st' i)) batch rnd = (new_samples, rnd'))
    \<and> (\<exists>requests. provider_requests st' = provider_requests st @ requests
          \<and> distinct requests
          \<and> set requests = {i \<in> set batch. image_map st i = None \<and> old i = None})"
  using assms
proof (induction batch arbitrary: st rnd)
  case Nil
  then show ?case by simp
next
  case (Cons i rest)
  from Cons.prems obtain st1 st2 rnd1 where
    e: "ensure_image_is_loaded_from provider i old st = Inr st1" and
    l: "load_samples_from_image provider parameters i st1 rnd = Inr (st2, rnd1)" and
    r: "load_sample_batch_loop provider parameters old rest st2 rnd1 = Inr (st', rnd')"
    by (auto split: sum.splits)
  from load_sample_batch_round[OF e l] obtain img new1 req1 where
    m2: "image_map st2 = (image_map st)(i \<mapsto> img)" and
    c: "case image_map st i of
            Some present \<Rightarrow> img = present \<and> req1 = []
          | None \<Rightarrow>
              (case old i of
                 Some previous \<Rightarrow> img = previous \<and> req1 = []
               | None \<Rightarrow> get_image provider i = Inr img \<and> req1 = [i])" and
    r2: "provider_requests st2 = provider_requests st @ req1" and
    s2: "provider_samples st2 = provider_samples st @ new1" and
    is1: "image_samples parameters img rnd = Inr (new1, rnd1)"
    by blast
  from Cons.IH[OF r] obtain new_rest requests where
    le: "image_map st2 \<subseteq>\<^sub>m image_map st'" and
    dm: "dom (image_map st') = dom (image_map st2) \<union> set rest" and
    im: "\<forall>j \<in> set rest. image_map st2 j = None \<longrightarrow>
          (case old j of
             Some previous \<Rightarrow> image_map st' j = Some previous
           | None \<Rightarrow> \<exists>img. get_image provider j = Inr img \<and> image_map st' j = Some img)" and
    sr: "provider_samples st' = provider_samples st2 @ new_rest" and
    br: "occurrence_samples parameters (\<lambda>i. the (image_map st' i)) rest rnd1 = (new_rest, rnd')" and
    rq: "provider_requests st' = provider_requests st2 @ requests" and
    di: "distinct requests" and
    su: "set requests = {j \<in> set rest. image_map st2 j = None \<and> old j = None}"
    by blast
  have final_i: "image_map st' i = Some img"
    using le m2 by (auto simp: map_le_def dom_def)
  have st_le: "image_map st \<subseteq>\<^sub>m image_map st2"
    using c unfolding m2 by (auto simp: map_le_def split: option.splits)
  have a: "image_map st \<subseteq>\<^sub>m image_map st'"
    using st_le le by (rule map_le_trans)
  have b: "dom (image_map st') = dom (image_map st) \<union> set (i # rest)"
    unfolding dm m2 by auto
  have none2: "image_map st2 j = None \<longleftrightarrow> j \<noteq> i \<and> image_map st j = None" for j
    unfolding m2 by simp
  have c': "\<forall>j \<in> set (i # rest). image_map st j = None \<longrightarrow>
          (case old j of
             Some previous \<Rightarrow> image_map st' j = Some previous
           | None \<Rightarrow> \<exists>img. get_image provider j = Inr img \<and> image_map st' j = Some img)"
  proof (intro ballI impI)
    fix j assume j: "j \<in> set (i # rest)" and n: "image_map st j = None"
    show "case old j of
             Some previous \<Rightarrow> image_map st' j = Some previous
           | None \<Rightarrow> \<exists>img. get_image provider j = Inr img \<and> image_map st' j = Some img"
    proof (cases "j = i")
      case True
      with c n final_i show ?thesis by (auto split: option.splits)
    next
      case False
      with j have "j \<in> set rest" by simp
      moreover have "image_map st2 j = None" using False n none2 by simp
      ultimately show ?thesis using im by blast
    qed
  qed
  have occ: "occurrence_samples parameters (\<lambda>i. the (image_map st' i)) (i # rest) rnd
               = (new1 @ new_rest, rnd')"
    using image_samples_occurrence[OF is1] br final_i
    by (simp add: Let_def split: if_splits)
  have d: "provider_samples st' = provider_samples st @ (new1 @ new_rest)"
    using sr s2 by simp
  have rq': "provider_requests st' = provider_requests st @ (req1 @ requests)"
    using rq r2 by simp
  have i_notin: "i \<notin> set requests"
    unfolding su none2 by simp
  have req1_cases: "(req1 = [i] \<and> image_map st i = None \<and> old i = None)
      \<or> (req1 = [] \<and> \<not> (image_map st i = None \<and> old i = None))"
    using c by (auto split: option.splits)
  have dist: "distinct (req1 @ requests)"
    using req1_cases di i_notin by auto
  have set_eq: "set (req1 @ requests) = {j \<in> set (i # rest). image_map st j = None \<and> old j = None}"
    using req1_cases unfolding set_append su none2 by auto
  from a b c' occ d rq' dist set_eq show ?case by blast
qed

text \<open>
  C10: \<^verbatim>\<open>load_sample_batch\<close> asks the provider for an image at most once per batch,
  however often its index occurs in the batch: the requests are the indices of the
  batch that the previous map does not hold, each once, and the new map holds, for
  every index of the batch, the image of the previous map or else the image the
  provider returns. The image is sampled once per occurrence: the sample list is the
  concatenation, over the occurrences in batch order, of the samples of the
  occurrence, which for a fraction below 1 are a subsample of its own, drawn by the
  tail pattern from the engine as the occurrence before it left it. An index that
  occurs twice thus contributes twice, and may contribute the same pixel twice.
\<close>

theorem load_sample_batch_per_occurrence:
  assumes "load_sample_batch provider parameters batch st rnd_engine = Inr (st', rnd_engine')"
  shows "(\<exists>requests. provider_requests st' = provider_requests st @ requests
            \<and> distinct requests
            \<and> set requests = {i \<in> set batch. image_map st i = None})
    \<and> dom (image_map st') = set batch
    \<and> (\<forall>i \<in> set batch.
          case image_map st i of
            Some previous \<Rightarrow> image_map st' i = Some previous
          | None \<Rightarrow> \<exists>img. get_image provider i = Inr img \<and> image_map st' i = Some img)
    \<and> occurrence_samples parameters (\<lambda>i. the (image_map st' i)) batch rnd_engine
        = (provider_samples st', rnd_engine')"
proof -
  let ?st0 = "st\<lparr>provider_samples := [], image_map := Map.empty\<rparr>"
  from assms have
    "load_sample_batch_loop provider parameters (image_map st) batch ?st0 rnd_engine = Inr (st', rnd_engine')"
    by (simp add: load_sample_batch_def Let_def)
  from load_sample_batch_loop_invariant[OF this] show ?thesis
    by simp
qed

text \<open>
  A batch that names the image of three pixels twice, with the fraction 0.9: the
  provider is asked once, and the two occurrences draw the pixels (0, 0), (2, 0), (0, 0)
  and (1, 0), (0, 0), (1, 0).
\<close>

lemma image_samples_row_loop:
  "image_samples subsample_parameters row_image rnd =
     Inr (subsample_loop (Suc (Suc (Suc 0))) 0
            [\<lparr>image_ptr = row_image, sample_x = 0, sample_y = 0\<rparr>,
             \<lparr>image_ptr = row_image, sample_x = 1, sample_y = 0\<rparr>,
             \<lparr>image_ptr = row_image, sample_x = 2, sample_y = 0\<rparr>] [] rnd)"
proof -
  have m: "min (nat 3) (length (non_background_samples subsample_parameters row_image))
             = Suc (Suc (Suc 0))"
    by (simp add: non_background_samples_row)
  show ?thesis
    unfolding image_samples_def Let_def round_half_away_row m
    unfolding non_background_samples_row
    using subsample_fraction_below_1 row_product_finite by simp
qed

lemma subsample_loop_fourth_engine:
  "subsample_loop (Suc (Suc (Suc 0))) 0 [a, b, c] [] fourth_engine =
     ([a, c, a], (\<lambda>i. if i = 0 then 1 else 0))"
  by (simp add: uniform_int_distribution_def fourth_engine_def advance_def swap_elements_def Let_def)

lemma subsample_loop_fourth_engine_advanced:
  "subsample_loop (Suc (Suc (Suc 0))) 0 [a, b, c] [] (\<lambda>i. if i = 0 then 1 else 0) =
     ([b, a, b], (\<lambda>i. 0))"
  by (simp add: uniform_int_distribution_def advance_def swap_elements_def Let_def)

lemma load_sample_batch_twice:
  "load_sample_batch (memory_image_provider True [row_image]) subsample_parameters [0, 0]
     empty_sample_provider fourth_engine =
   Inr (\<lparr>image_map = [0 \<mapsto> row_image],
         provider_samples =
           [\<lparr>image_ptr = row_image, sample_x = 0, sample_y = 0\<rparr>,
            \<lparr>image_ptr = row_image, sample_x = 2, sample_y = 0\<rparr>,
            \<lparr>image_ptr = row_image, sample_x = 0, sample_y = 0\<rparr>,
            \<lparr>image_ptr = row_image, sample_x = 1, sample_y = 0\<rparr>,
            \<lparr>image_ptr = row_image, sample_x = 0, sample_y = 0\<rparr>,
            \<lparr>image_ptr = row_image, sample_x = 1, sample_y = 0\<rparr>],
         provider_requests = [0]\<rparr>, (\<lambda>i. 0))"
  by (simp add: load_sample_batch_def load_samples_from_image_def ensure_image_is_loaded_def
      ensure_image_is_loaded_from_def memory_image_provider_def memory_get_image_def
      empty_sample_provider_def image_samples_row_loop subsample_loop_fourth_engine
      subsample_loop_fourth_engine_advanced Let_def
      del: subsample_loop.simps)

theorem load_sample_batch_per_occurrence_witness:
  "\<exists>st' rnd_engine'.
     load_sample_batch (memory_image_provider True [row_image]) subsample_parameters [0, 0]
       empty_sample_provider fourth_engine = Inr (st', rnd_engine')
     \<and> double_value (samples_per_image_fraction subsample_parameters) < 1
     \<and> provider_requests st' = [0]
     \<and> get_image (memory_image_provider True [row_image]) 0 = Inr row_image
     \<and> image_map st' 0 = Some row_image
     \<and> map (\<lambda>sample. (sample_x sample, sample_y sample)) (provider_samples st')
         = [(0, 0), (2, 0), (0, 0), (1, 0), (0, 0), (1, 0)]
     \<and> occurrence_samples subsample_parameters (\<lambda>i. the (image_map st' i)) [0, 0] fourth_engine
         = (provider_samples st', rnd_engine')"
proof -
  let ?st = "\<lparr>image_map = [0 \<mapsto> row_image],
         provider_samples =
           [\<lparr>image_ptr = row_image, sample_x = 0, sample_y = 0\<rparr>,
            \<lparr>image_ptr = row_image, sample_x = 2, sample_y = 0\<rparr>,
            \<lparr>image_ptr = row_image, sample_x = 0, sample_y = 0\<rparr>,
            \<lparr>image_ptr = row_image, sample_x = 1, sample_y = 0\<rparr>,
            \<lparr>image_ptr = row_image, sample_x = 0, sample_y = 0\<rparr>,
            \<lparr>image_ptr = row_image, sample_x = 1, sample_y = 0\<rparr>],
         provider_requests = [0]\<rparr>"
  from load_sample_batch_per_occurrence[OF load_sample_batch_twice]
  have b: "occurrence_samples subsample_parameters (\<lambda>i. the (image_map ?st i)) [0, 0] fourth_engine
             = (provider_samples ?st, (\<lambda>i. 0))"
    by (rule conjunct2[THEN conjunct2, THEN conjunct2])
  have g: "get_image (memory_image_provider True [row_image]) 0 = Inr row_image"
    by (simp add: memory_image_provider_def memory_get_image_def)
  have r: "provider_requests ?st = [0]"
    and i: "image_map ?st 0 = Some row_image"
    and s: "map (\<lambda>sample. (sample_x sample, sample_y sample)) (provider_samples ?st)
         = [(0, 0), (2, 0), (0, 0), (1, 0), (0, 0), (1, 0)]"
    by simp_all
  show ?thesis
    by (intro exI[of _ ?st] exI[of _ "\<lambda>i. 0"] conjI load_sample_batch_twice
        subsample_fraction_below_1 b g r i s)
qed

section \<open>Applying the best split points of a level\<close>

lemma update_node_in_range:
  "node_index < length tree \<Longrightarrow>
   update_node node_index f tree = Inr (tree[node_index := f (tree ! node_index)])"
  by (simp add: update_node_def)

lemma apply_best_split_point_step:
  assumes "right_child n < length tree"
  shows "\<exists>tree'. apply_best_split_point parameters n best tree = Inr tree'
      \<and> length tree' = length tree
      \<and> is_leaf (tree' ! left_child n) \<and> is_leaf (tree' ! right_child n)
      \<and> is_leaf (tree' ! n) =
          (information_gain (snd best) < minimum_information_gain parameters
           \<or> total_num_of_samples (snd best) < minimum_num_of_samples parameters)
      \<and> node_split_point (tree' ! n) = Some (fst best)
      \<and> (\<forall>j. j \<noteq> n \<and> j \<noteq> left_child n \<and> j \<noteq> right_child n \<longrightarrow> tree' ! j = tree ! j)"
proof -
  have r: "2 * n + 2 < length tree" using assms by (simp add: right_child_def)
  then have n: "n < length tree" and l: "2 * n + 1 < length tree" by simp_all
  show ?thesis
    using r n l
    by (simp add: apply_best_split_point_def set_split_point_def set_leaf_def
        update_node_in_range left_child_def right_child_def nth_list_update)
qed

lemma child_indices_differ:
  "left_child a \<noteq> right_child b" "left_child a = left_child b \<longleftrightarrow> a = b"
  "right_child a = right_child b \<longleftrightarrow> a = b"
  by (simp_all add: left_child_def right_child_def) presburger

lemma apply_best_split_points_invariant:
  assumes "distinct (map fst batch)"
    and "\<forall>a \<in> set (map fst batch). right_child a < length tree"
    and "\<forall>a \<in> set (map fst batch). \<forall>b \<in> set (map fst batch). b \<noteq> left_child a \<and> b \<noteq> right_child a"
  shows "\<exists>tree'. apply_best_split_points parameters batch tree = Inr tree'
      \<and> length tree' = length tree
      \<and> (\<forall>entry \<in> set batch.
            is_leaf (tree' ! left_child (fst entry)) \<and> is_leaf (tree' ! right_child (fst entry))
            \<and> is_leaf (tree' ! fst entry) =
                (information_gain (snd (snd entry)) < minimum_information_gain parameters
                 \<or> total_num_of_samples (snd (snd entry)) < minimum_num_of_samples parameters)
            \<and> node_split_point (tree' ! fst entry) = Some (fst (snd entry)))
      \<and> (\<forall>j. j \<notin> set (map fst batch) \<and> j \<notin> left_child ` set (map fst batch)
               \<and> j \<notin> right_child ` set (map fst batch) \<longrightarrow> tree' ! j = tree ! j)"
  using assms
proof (induction batch arbitrary: tree)
  case Nil
  then show ?case by simp
next
  case (Cons entry rest)
  obtain n best where entry: "entry = (n, best)" by (cases entry)
  let ?keys = "set (map fst rest)"
  from Cons.prems(2) entry have rc: "right_child n < length tree" by simp
  from apply_best_split_point_step[OF rc, of parameters best] obtain tree1 where
    s: "apply_best_split_point parameters n best tree = Inr tree1" and
    len1: "length tree1 = length tree" and
    l1: "is_leaf (tree1 ! left_child n)" and
    r1: "is_leaf (tree1 ! right_child n)" and
    n1: "is_leaf (tree1 ! n) =
          (information_gain (snd best) < minimum_information_gain parameters
           \<or> total_num_of_samples (snd best) < minimum_num_of_samples parameters)" and
    sp1: "node_split_point (tree1 ! n) = Some (fst best)" and
    other1: "\<forall>j. j \<noteq> n \<and> j \<noteq> left_child n \<and> j \<noteq> right_child n \<longrightarrow> tree1 ! j = tree ! j"
    by blast
  have d: "distinct (map fst rest)" using Cons.prems(1) by simp
  have inr: "\<forall>a \<in> ?keys. right_child a < length tree1"
    using Cons.prems(2) len1 by simp
  have nc: "\<forall>a \<in> ?keys. \<forall>b \<in> ?keys. b \<noteq> left_child a \<and> b \<noteq> right_child a"
    using Cons.prems(3) by simp
  from Cons.IH[OF d inr nc] obtain tree' where
    run: "apply_best_split_points parameters rest tree1 = Inr tree'" and
    len: "length tree' = length tree1" and
    props: "\<forall>entry \<in> set rest.
            is_leaf (tree' ! left_child (fst entry)) \<and> is_leaf (tree' ! right_child (fst entry))
            \<and> is_leaf (tree' ! fst entry) =
                (information_gain (snd (snd entry)) < minimum_information_gain parameters
                 \<or> total_num_of_samples (snd (snd entry)) < minimum_num_of_samples parameters)
            \<and> node_split_point (tree' ! fst entry) = Some (fst (snd entry))" and
    other: "\<forall>j. j \<notin> ?keys \<and> j \<notin> left_child ` ?keys \<and> j \<notin> right_child ` ?keys
               \<longrightarrow> tree' ! j = tree1 ! j"
    by blast
  have n_key: "n \<notin> ?keys" using Cons.prems(1) entry by simp
  have n_child: "n \<notin> left_child ` ?keys" "n \<notin> right_child ` ?keys"
    using Cons.prems(3) entry by auto
  have l_key: "left_child n \<notin> ?keys" and r_key: "right_child n \<notin> ?keys"
    using Cons.prems(3) entry by auto
  have l_child: "left_child n \<notin> left_child ` ?keys" "left_child n \<notin> right_child ` ?keys"
  proof -
    show "left_child n \<notin> left_child ` ?keys"
    proof
      assume "left_child n \<in> left_child ` ?keys"
      then obtain a where a: "a \<in> ?keys" and eq: "left_child n = left_child a" by (rule imageE)
      from eq have "n = a" by (simp only: child_indices_differ(2))
      with a n_key show False by blast
    qed
    show "left_child n \<notin> right_child ` ?keys"
    proof
      assume "left_child n \<in> right_child ` ?keys"
      then obtain a where "left_child n = right_child a" by (rule imageE)
      then show False by (simp only: child_indices_differ(1))
    qed
  qed
  have r_child: "right_child n \<notin> left_child ` ?keys" "right_child n \<notin> right_child ` ?keys"
  proof -
    show "right_child n \<notin> left_child ` ?keys"
    proof
      assume "right_child n \<in> left_child ` ?keys"
      then obtain a where "right_child n = left_child a" by (rule imageE)
      then have "left_child a = right_child n" by (rule sym)
      then show False by (simp only: child_indices_differ(1))
    qed
    show "right_child n \<notin> right_child ` ?keys"
    proof
      assume "right_child n \<in> right_child ` ?keys"
      then obtain a where a: "a \<in> ?keys" and eq: "right_child n = right_child a" by (rule imageE)
      from eq have "n = a" by (simp only: child_indices_differ(3))
      with a n_key show False by blast
    qed
  qed
  have keep_n: "tree' ! n = tree1 ! n" using other n_key n_child by blast
  have keep_l: "tree' ! left_child n = tree1 ! left_child n" using other l_key l_child by blast
  have keep_r: "tree' ! right_child n = tree1 ! right_child n" using other r_key r_child by blast
  have head: "is_leaf (tree' ! left_child n) \<and> is_leaf (tree' ! right_child n)
      \<and> is_leaf (tree' ! n) =
          (information_gain (snd best) < minimum_information_gain parameters
           \<or> total_num_of_samples (snd best) < minimum_num_of_samples parameters)
      \<and> node_split_point (tree' ! n) = Some (fst best)"
    using keep_n keep_l keep_r l1 r1 n1 sp1 by simp
  have unchanged: "\<forall>j. j \<notin> set (map fst (entry # rest)) \<and> j \<notin> left_child ` set (map fst (entry # rest))
               \<and> j \<notin> right_child ` set (map fst (entry # rest)) \<longrightarrow> tree' ! j = tree ! j"
    using other other1 entry by auto
  have "apply_best_split_points parameters (entry # rest) tree = Inr tree'"
    using s run entry by simp
  moreover have "length tree' = length tree" using len len1 by simp
  ultimately show ?case
    using head props unchanged entry by auto
qed

text \<open>
  C4, as the code has it: for the nodes of one level with a computed best split (no
  node of the batch is a child of another, and the children are nodes of the tree),
  the loop ends with both children of every node flagged as leaves; the node is flagged
  a leaf if the gain is below \<^verbatim>\<open>minimum_information_gain\<close> or its number of samples is
  below \<^verbatim>\<open>minimum_num_of_samples\<close>, and internal otherwise; and in both cases the node
  holds the chosen split point, which is written before the test.
\<close>

theorem apply_best_split_points_flags:
  assumes "distinct (map fst batch)"
    and "\<forall>a \<in> set (map fst batch). right_child a < length tree"
    and "\<forall>a \<in> set (map fst batch). \<forall>b \<in> set (map fst batch). b \<noteq> left_child a \<and> b \<noteq> right_child a"
  shows "\<exists>tree'. apply_best_split_points parameters batch tree = Inr tree'
      \<and> (\<forall>entry \<in> set batch.
            is_leaf (tree' ! left_child (fst entry)) \<and> is_leaf (tree' ! right_child (fst entry))
            \<and> is_leaf (tree' ! fst entry) =
                (information_gain (snd (snd entry)) < minimum_information_gain parameters
                 \<or> total_num_of_samples (snd (snd entry)) < minimum_num_of_samples parameters)
            \<and> node_split_point (tree' ! fst entry) = Some (fst (snd entry)))"
  using apply_best_split_points_invariant[OF assms, of parameters] by blast

theorem apply_best_split_points_flags_witness:
  "\<exists>tree'. apply_best_split_points strict_parameters
              [(1, (chosen_split_point, no_gain)), (2, (chosen_split_point, good_gain))]
              two_level_tree = Inr tree'
     \<and> is_leaf (tree' ! 1) \<and> node_split_point (tree' ! 1) = Some chosen_split_point
     \<and> \<not> is_leaf (tree' ! 2) \<and> node_split_point (tree' ! 2) = Some chosen_split_point
     \<and> is_leaf (tree' ! 3) \<and> is_leaf (tree' ! 4) \<and> is_leaf (tree' ! 5) \<and> is_leaf (tree' ! 6)"
proof -
  let ?batch = "[(1::nat, (chosen_split_point, no_gain)), (2, (chosen_split_point, good_gain))]"
  let ?tree = "two_level_tree"
  have 1: "distinct (map fst ?batch)" by simp
  have 2: "\<forall>a \<in> set (map fst ?batch). right_child a < length ?tree"
    by (simp add: right_child_def two_level_tree_def)
  have 3: "\<forall>a \<in> set (map fst ?batch). \<forall>b \<in> set (map fst ?batch). b \<noteq> left_child a \<and> b \<noteq> right_child a"
    by (simp add: right_child_def left_child_def)
  from apply_best_split_points_flags[OF 1 2 3, of strict_parameters] show ?thesis
    by (auto simp: left_child_def right_child_def strict_parameters_def no_gain_def good_gain_def)
qed

text \<open>
  C4, as stated, says that a node marked a leaf keeps no split point. For a root whose
  best split has gain 0 under a minimum gain of 1, the loop marks the root a leaf, and
  the root holds the chosen split point.
\<close>

theorem leaf_keeps_split_point:
  "\<exists>tree'. apply_best_split_points strict_parameters [(0, (chosen_split_point, no_gain))] small_tree
              = Inr tree'
     \<and> node_split_point (small_tree ! 0) = None
     \<and> information_gain no_gain < minimum_information_gain strict_parameters
     \<and> is_leaf (tree' ! 0)
     \<and> node_split_point (tree' ! 0) = Some chosen_split_point
     \<and> node_split_point (tree' ! 0) \<noteq> None"
  by (simp add: apply_best_split_point_def set_split_point_def set_leaf_def update_node_def
      left_child_def right_child_def small_tree_def strict_parameters_def no_gain_def
      numeral_3_eq_3)

section \<open>Lookups outside the range\<close>

lemma get_split_point_loop_not_found:
  "i + prior_thresholds cs (length cs) \<le> index \<Longrightarrow>
   get_split_point_loop cs i index = Inl InvalidArgument"
proof (induction cs arbitrary: i)
  case Nil
  then show ?case by simp
next
  case (Cons c cs)
  obtain f ts where c: "c = (f, ts)" by (cases c)
  have p: "prior_thresholds (c # cs) (length (c # cs)) = length ts + prior_thresholds cs (length cs)"
    using c by (simp add: prior_thresholds_def)
  with Cons.prems have le: "i + length ts \<le> index"
    and le': "(i + length ts) + prior_thresholds cs (length cs) \<le> index"
    by simp_all
  have "get_split_point_thresholds f ts i index = Inr (i + length ts)"
    using le by (rule get_split_point_thresholds_passed)
  with Cons.IH[OF le'] c show ?case by simp
qed

lemma find_best_split_point_batch_fails:
  assumes "(node_index, ss) \<in> set split_statistics_batch"
    and "find_best_split_point_node assertions W split_points_batch current_statistics node_index ss = Inl e"
  shows "\<exists>e'. find_best_split_point_batch assertions W split_points_batch current_statistics
                 split_statistics_batch = Inl e'"
  using assms
proof (induction split_statistics_batch)
  case Nil
  then show ?case by simp
next
  case (Cons entry rest)
  obtain n s where entry: "entry = (n, s)" by (cases entry)
  show ?case
  proof (cases "find_best_split_point_node assertions W split_points_batch current_statistics n s")
    case (Inl e1)
    with entry show ?thesis by simp
  next
    case (Inr best)
    with Cons.prems entry have "(node_index, ss) \<in> set rest" by auto
    from Cons.IH[OF this Cons.prems(2)] obtain e' where
      "find_best_split_point_batch assertions W split_points_batch current_statistics rest = Inl e'"
      by blast
    with Inr entry show ?thesis by simp
  qed
qed

text \<open>
  C8, as the code has it: for a candidate set whose \<^verbatim>\<open>total_size\<close> is the number of its
  thresholds, \<^verbatim>\<open>get_split_point\<close> at an index outside \<open>[0, total_size)\<close> returns no split
  point: with assertions compiled in it stops at the failed assertion, and with
  assertions compiled out it throws \<^verbatim>\<open>std::invalid_argument\<close>, which reaches the caller.
  \<^verbatim>\<open>MemoryImageProvider::get_image\<close> guards its index by the assertion only: with
  assertions compiled in, an index outside the provider's range stops at the failed
  assertion. When the best candidate index of a node of the level is outside the range,
  \<^verbatim>\<open>find_best_split_point_batch\<close> fails, and \<^verbatim>\<open>train_tree_level_part\<close> ends with a
  failure and returns no tree.
\<close>

theorem out_of_range_lookups_fail:
  assumes "total_size split_points = prior_thresholds (candidates split_points) (length (candidates split_points))"
    and "total_size split_points \<le> index"
    and "length images \<le> image_index"
    and "current_level < tree_depth parameters"
    and "sample_split_points_batch W node_to_sample_map rnd_engine = Inr (split_points_batch, rnd1)"
    and "compute_split_statistics_batch multi_threading W parameters node_to_sample_map split_points_batch
           = Inr split_statistics_batch"
    and "(node_index, split_statistics) \<in> set split_statistics_batch"
    and "node_map_at split_points_batch node_index = Inr split_points"
    and "node_map_at (compute_statistics_batch W node_to_sample_map) node_index = Inr current"
    and "fst (wl_find_best_split_point_tuple W current split_statistics) = index"
  shows "get_split_point True split_points index = Inl AssertionFailure
    \<and> get_split_point False split_points index = Inl InvalidArgument
    \<and> surfaced_to_caller InvalidArgument
    \<and> memory_get_image True images image_index = Inl AssertionFailure
    \<and> (\<exists>e. find_best_split_point_batch assertions W split_points_batch
               (compute_statistics_batch W node_to_sample_map) split_statistics_batch = Inl e)
    \<and> (\<exists>e. train_tree_level_part assertions multi_threading W parameters node_to_sample_map tree
               current_level rnd_engine = Inl e)"
proof -
  let ?current_statistics = "compute_statistics_batch W node_to_sample_map"
  have a: "get_split_point True split_points index = Inl AssertionFailure"
    using assms(2) by (simp add: get_split_point_def)
  have "0 + prior_thresholds (candidates split_points) (length (candidates split_points)) \<le> index"
    using assms(1,2) by simp
  then have loop: "get_split_point_loop (candidates split_points) 0 index = Inl InvalidArgument"
    by (rule get_split_point_loop_not_found)
  then have b: "get_split_point False split_points index = Inl InvalidArgument"
    by (simp add: get_split_point_def)
  have any: "get_split_point assertions split_points index
               = Inl (if assertions then AssertionFailure else InvalidArgument)"
    using a b by (cases assertions) simp_all
  have c: "memory_get_image True images image_index = Inl AssertionFailure"
    using assms(3) by (simp add: memory_get_image_def)
  obtain gain where best: "wl_find_best_split_point_tuple W current split_statistics = (index, gain)"
    using assms(10) by (cases "wl_find_best_split_point_tuple W current split_statistics") simp
  have node: "find_best_split_point_node assertions W split_points_batch ?current_statistics node_index
                split_statistics = Inl (if assertions then AssertionFailure else InvalidArgument)"
    using assms(8,9) best any by (simp add: find_best_split_point_node_def)
  from find_best_split_point_batch_fails[OF assms(7) node] obtain e where
    d: "find_best_split_point_batch assertions W split_points_batch ?current_statistics
          split_statistics_batch = Inl e"
    by blast
  have e: "\<exists>e. train_tree_level_part assertions multi_threading W parameters node_to_sample_map tree
               current_level rnd_engine = Inl e"
    using assms(4,5,6) d
    by (cases "update_node_statistics_batch ?current_statistics tree")
       (simp_all add: train_tree_level_part_def Let_def)
  from a b c d e show ?thesis by auto
qed

theorem out_of_range_lookups_fail_witness:
  "get_split_point True empty_candidates 0 = Inl AssertionFailure
   \<and> get_split_point False empty_candidates 0 = Inl InvalidArgument
   \<and> memory_get_image True [one_pixel_image] 1 = Inl AssertionFailure
   \<and> (\<exists>e. train_tree_level_part False False counting_weak_learner strict_parameters
             [(0, [one_pixel_sample])] small_tree 0 zero_engine = Inl e)"
proof -
  let ?W = "counting_weak_learner"
  let ?m = "[(0::nat, [one_pixel_sample])]"
  let ?ss = "\<lparr>left_statistics = [], right_statistics = []\<rparr> :: nat split_statistics"
  have 1: "total_size empty_candidates
             = prior_thresholds (candidates empty_candidates) (length (candidates empty_candidates))"
    by (simp add: empty_candidates_def prior_thresholds_def)
  have 2: "total_size empty_candidates \<le> 0" by (simp add: empty_candidates_def)
  have 3: "length [one_pixel_image] \<le> 1" by simp
  have 4: "0 < tree_depth strict_parameters" by (simp add: strict_parameters_def)
  have 5: "sample_split_points_batch ?W ?m zero_engine = Inr ([(0, empty_candidates)], zero_engine)"
    by (simp add: counting_weak_learner_def)
  have 6: "compute_split_statistics_batch False ?W strict_parameters ?m [(0, empty_candidates)]
             = Inr [(0, ?ss)]"
    by (simp add: counting_weak_learner_def node_map_at_def)
  have 7: "(0, ?ss) \<in> set [(0::nat, ?ss)]" by simp
  have 8: "node_map_at [(0::nat, empty_candidates)] 0 = Inr empty_candidates"
    by (simp add: node_map_at_def)
  have 9: "node_map_at (compute_statistics_batch ?W ?m) 0 = Inr (Suc 0)"
    by (simp add: node_map_at_def compute_statistics_batch_def counting_weak_learner_def)
  have 10: "fst (wl_find_best_split_point_tuple ?W (Suc 0) ?ss) = 0"
    by (simp add: counting_weak_learner_def)
  from out_of_range_lookups_fail[OF 1 2 3 4 5 6 7 8 9 10, of False small_tree]
  show ?thesis by blast
qed

text \<open>
  C8, as stated, says that an image index outside the provider's range fails with an
  error surfaced to the caller and never has unspecified behaviour. For a provider of
  one image and index 1, \<^verbatim>\<open>get_image\<close> stops at the assertion when assertions are compiled
  in, and reads past the end of the vector when they are not; neither is an error that
  reaches the caller.
\<close>

theorem get_image_out_of_range_not_surfaced:
  "memory_get_image True [one_pixel_image] 1 = Inl AssertionFailure
   \<and> \<not> surfaced_to_caller AssertionFailure
   \<and> memory_get_image False [one_pixel_image] 1 = Inl UndefinedBehaviour
   \<and> \<not> surfaced_to_caller UndefinedBehaviour
   \<and> get_split_point True empty_candidates 0 = Inl AssertionFailure"
  by (simp add: memory_get_image_def get_split_point_def empty_candidates_def)

section \<open>Parallel and serial accumulation\<close>

subsection \<open>The serial run as a sequence of calls\<close>

lemma run_actions_append:
  "run_actions (xs @ ys) ss =
     (case run_actions xs ss of Inl e \<Rightarrow> Inl e | Inr ss' \<Rightarrow> run_actions ys ss')"
  by (induction xs arbitrary: ss) (auto split: sum.splits)

lemma run_sample_actions:
  "run_actions (sample_actions S sample v thresholds k) ss =
     accumulate_thresholds S sample v thresholds k ss"
  by (induction thresholds arbitrary: k ss) (auto simp: apply_action_def split: sum.splits)

lemma run_samples_actions:
  "run_actions (concat (map (\<lambda>sample. sample_actions S sample (compute_pixel_difference feature sample)
                                thresholds offset) samples)) ss =
     accumulate_samples S samples offset feature thresholds ss"
  by (induction samples arbitrary: ss)
     (auto simp: run_actions_append run_sample_actions split: sum.splits)

lemma run_finish_actions:
  "run_actions (concat (map (\<lambda>threshold. [(LeftSide, offset, finish_lazy_accumulation S),
                                           (RightSide, offset, finish_lazy_accumulation S)])
                         thresholds)) ss =
     finish_thresholds S thresholds offset ss"
  by (induction thresholds arbitrary: ss) (auto simp: apply_action_def Let_def split: sum.splits)

lemma run_feature_actions:
  "run_actions (feature_actions S samples offset feature thresholds) ss =
     compute_split_statistics_feature S samples ss offset feature thresholds"
  by (simp add: feature_actions_def run_actions_append run_samples_actions run_finish_actions
      compute_split_statistics_feature_def split: sum.splits)

lemma run_thread_actions:
  "\<forall>i \<in> set indices. i < length cs \<Longrightarrow>
   run_actions (thread_actions S samples cs indices) ss = thread_lambda S samples cs indices ss"
proof (induction indices arbitrary: ss)
  case Nil
  then show ?case by (simp add: thread_actions_def)
next
  case (Cons i rest)
  have split: "thread_actions S samples cs (i # rest) =
      feature_actions S samples (i * length (snd (cs ! i))) (fst (cs ! i)) (snd (cs ! i))
      @ thread_actions S samples cs rest"
    by (simp add: thread_actions_def)
  from Cons.prems have i: "i < length cs" and rest: "\<forall>j \<in> set rest. j < length cs"
    by simp_all
  show ?case
    unfolding split run_actions_append run_feature_actions
    using i Cons.IH[OF rest] by (simp split: sum.splits)
qed

lemma compute_split_statistics_loop_thread_lambda:
  "i \<le> length cs \<Longrightarrow>
   compute_split_statistics_loop S samples (drop i cs) i ss =
     thread_lambda S samples cs [i..<length cs] ss"
proof (induction "length cs - i" arbitrary: i ss)
  case 0
  then show ?case by simp
next
  case (Suc d)
  then have i: "i < length cs" by simp
  obtain f ts where c: "cs ! i = (f, ts)" by (cases "cs ! i")
  have dr: "drop i cs = (f, ts) # drop (Suc i) cs"
    using i c by (simp add: Cons_nth_drop_Suc[symmetric])
  have up: "[i..<length cs] = i # [Suc i..<length cs]"
    using i by (simp add: upt_conv_Cons)
  have d: "d = length cs - Suc i" using Suc.hyps(2) by simp
  have le: "Suc i \<le> length cs" using i by simp
  show ?case
    unfolding dr up
    using i c Suc.hyps(1)[OF d le] by (simp add: Let_def split: sum.splits)
qed

lemma compute_split_statistics_as_actions:
  "compute_split_statistics S samples split_points =
     run_actions (thread_actions S samples (candidates split_points)
                    [0..<length (candidates split_points)])
       (new_split_statistics (total_size split_points) S)"
proof -
  have "compute_split_statistics S samples split_points =
          thread_lambda S samples (candidates split_points) [0..<length (candidates split_points)]
            (new_split_statistics (total_size split_points) S)"
    using compute_split_statistics_loop_thread_lambda[of 0 "candidates split_points"]
    by (simp add: compute_split_statistics_def)
  also have "\<dots> = run_actions (thread_actions S samples (candidates split_points)
                    [0..<length (candidates split_points)])
       (new_split_statistics (total_size split_points) S)"
    by (rule run_thread_actions[symmetric]) simp
  finally show ?thesis .
qed

subsection \<open>The shards partition the features\<close>

lemma shards_upto:
  "concat (map (shard F T) [0..<k]) = [0..<k * F div T]"
proof (induction k)
  case 0
  then show ?case by simp
next
  case (Suc k)
  have mono: "k * F div T \<le> Suc k * F div T"
    by (intro div_le_mono) simp
  have "[0..<k * F div T] @ [k * F div T..<Suc k * F div T] = [0..<Suc k * F div T]"
    using mono by (metis le0 upt_add_eq_append le_add_diff_inverse)
  with Suc show ?case by (simp add: shard_def)
qed

lemma shards_partition:
  "1 \<le> T \<Longrightarrow> concat (map (shard F T) [0..<T]) = [0..<F]"
  by (simp add: shards_upto)

lemma thread_actions_concat:
  "thread_actions S samples cs (concat iss) = concat (map (thread_actions S samples cs) iss)"
  by (induction iss) (simp_all add: thread_actions_def)

lemma concat_thread_programs:
  "1 \<le> T \<Longrightarrow>
   concat (thread_programs S samples split_points T) =
     thread_actions S samples (candidates split_points) [0..<length (candidates split_points)]"
proof -
  assume T: "1 \<le> T"
  have "concat (thread_programs S samples split_points T) =
          concat (map (thread_actions S samples (candidates split_points))
                    (map (shard (length (candidates split_points)) T) [0..<T]))"
    by (simp add: thread_programs_def comp_def)
  also have "\<dots> = thread_actions S samples (candidates split_points)
                     (concat (map (shard (length (candidates split_points)) T) [0..<T]))"
    by (rule thread_actions_concat[symmetric])
  finally show ?thesis using T by (simp add: shards_partition)
qed

subsection \<open>Schedules of threads that touch disjoint entries\<close>

lemma interleaving_concat_aux:
  "interleaving (replicate k [] @ ps) (concat ps)"
proof (induction ps arbitrary: k)
  case Nil
  show ?case by (simp add: interleaving.finished)
next
  case (Cons p ps)
  show ?case
  proof (induction p)
    case Nil
    have "replicate k [] @ [] # ps = (replicate k [] @ [Nil]) @ ps"
      by simp
    also have "\<dots> = replicate (Suc k) [] @ ps"
      by (simp only: replicate_append_same replicate_Suc)
    finally have "replicate k [] @ [] # ps = replicate (Suc k) [] @ ps" .
    moreover have "interleaving (replicate (Suc k) [] @ ps) (concat ([] # ps))"
      using Cons.IH[of "Suc k"] by simp
    ultimately show ?case by (simp only:)
  next
    case (Cons a p')
    let ?qs = "replicate k [] @ (a # p') # ps"
    have t: "k < length ?qs" by simp
    have at: "?qs ! k = a # p'" by (simp add: nth_append)
    have upd: "?qs[k := p'] = replicate k [] @ p' # ps"
      by (simp add: list_update_append)
    from Cons.IH have "interleaving (?qs[k := p']) (concat (p' # ps))"
      unfolding upd .
    from interleaving.step[OF t at this] show ?case by simp
  qed
qed

lemma interleaving_concat: "interleaving ps (concat ps)"
  using interleaving_concat_aux[of 0 ps] by simp

lemma all_finished: "list_all finished_program ps \<longleftrightarrow> (\<forall>p \<in> set ps. p = [])"
proof -
  have "finished_program p \<longleftrightarrow> p = []" for p :: "'a list" by (cases p) simp_all
  then show ?thesis by (simp add: list_all_iff)
qed

lemma in_concat_map:
  "x \<in> set (f t) \<Longrightarrow> t \<in> set ts \<Longrightarrow> x \<in> set (concat (map f ts))"
  by auto

lemma concat_map_elem:
  "x \<in> set (concat (map f ts)) \<Longrightarrow> \<exists>t \<in> set ts. x \<in> set (f t)"
  by auto

lemma interleavings_complete:
  "interleaving ps schedule \<Longrightarrow> schedule \<in> set (interleavings ps)"
proof (induction rule: interleaving.induct)
  case (finished ps)
  then have "list_all finished_program ps" by (simp add: all_finished)
  then show ?case using interleavings.simps[of ps] by simp
next
  case (step t ps a p schedule)
  have "ps ! t \<in> set ps" using step.hyps(1) by simp
  then have nf: "\<not> list_all finished_program ps"
    unfolding all_finished using step.hyps(2) by force
  have "a # schedule \<in> set (case ps ! t of [] \<Rightarrow> []
                            | a # p \<Rightarrow> map ((#) a) (interleavings (ps[t := p])))"
    using step.hyps(2) step.IH by simp
  moreover have "t \<in> set [0..<length ps]" using step.hyps(1) by simp
  ultimately have "a # schedule \<in> set (concat (map (\<lambda>t. case ps ! t of [] \<Rightarrow> []
                            | a # p \<Rightarrow> map ((#) a) (interleavings (ps[t := p]))) [0..<length ps]))"
    by (rule in_concat_map[where f = "\<lambda>t. case ps ! t of [] \<Rightarrow> []
                            | a # p \<Rightarrow> map ((#) a) (interleavings (ps[t := p]))"])
  then show ?case
    using nf interleavings.simps[of ps] by simp
qed

lemma interleavings_sound:
  "schedule \<in> set (interleavings ps) \<Longrightarrow> interleaving ps schedule"
proof (induction ps arbitrary: schedule rule: interleavings.induct)
  case (1 ps)
  show ?case
  proof (cases "list_all finished_program ps")
    case True
    with "1.prems" interleavings.simps[of ps] have "schedule = []" by simp
    with True show ?thesis by (simp add: all_finished interleaving.finished)
  next
    case False
    with "1.prems" interleavings.simps[of ps] have
      "schedule \<in> set (concat (map (\<lambda>t. case ps ! t of [] \<Rightarrow> []
                            | a # p \<Rightarrow> map ((#) a) (interleavings (ps[t := p]))) [0..<length ps]))"
      by simp
    from concat_map_elem[OF this] obtain t where tin: "t \<in> set [0..<length ps]" and
      s: "schedule \<in> set (case ps ! t of [] \<Rightarrow> []
                            | a # p \<Rightarrow> map ((#) a) (interleavings (ps[t := p])))"
      by blast
    from tin have t: "t < length ps" by simp
    from s obtain a p rest where at: "ps ! t = a # p" and
      sch: "schedule = a # rest" and rest: "rest \<in> set (interleavings (ps[t := p]))"
      by (cases "ps ! t") auto
    from "1.IH"[OF False tin at rest] have "interleaving (ps[t := p]) rest" .
    from interleaving.step[OF t at this] sch show ?thesis by simp
  qed
qed

text \<open>The list of schedules holds exactly the schedules.\<close>

lemma interleavings_iff:
  "schedule \<in> set (interleavings ps) \<longleftrightarrow> interleaving ps schedule"
  using interleavings_complete interleavings_sound by blast

lemma interleaving_all:
  "interleaving ps schedule \<Longrightarrow> \<forall>p \<in> set ps. \<forall>a \<in> set p. P a \<Longrightarrow> \<forall>a \<in> set schedule. P a"
proof (induction rule: interleaving.induct)
  case (finished ps)
  then show ?case by simp
next
  case (step t ps a p schedule)
  have in_ps: "ps ! t \<in> set ps" using step.hyps(1) by simp
  with step.prems step.hyps(2) have a: "P a" and p: "\<forall>b \<in> set p. P b"
    by auto
  have "\<forall>q \<in> set (ps[t := p]). \<forall>b \<in> set q. P b"
  proof
    fix q assume "q \<in> set (ps[t := p])"
    then have "q = p \<or> q \<in> set ps"
      using set_update_subset_insert[of ps t p] by auto
    with p step.prems show "\<forall>b \<in> set q. P b" by auto
  qed
  from step.IH[OF this] a show ?case by simp
qed

lemma disjoint_programs_update:
  assumes "disjoint_programs ps" and "t < length ps" and "ps ! t = a # p"
  shows "disjoint_programs (ps[t := p])"
  unfolding disjoint_programs_def
proof (intro allI impI)
  fix t1 t2
  assume t1: "t1 < length (ps[t := p])" and t2: "t2 < length (ps[t := p])" and ne: "t1 \<noteq> t2"
  have sub: "cells ((ps[t := p]) ! u) \<subseteq> cells (ps ! u)" if "u < length ps" for u
    using that assms(3) by (cases "u = t") (auto simp: cells_def)
  have "cells (ps ! t1) \<inter> cells (ps ! t2) = {}"
    using assms(1) t1 t2 ne by (simp add: disjoint_programs_def)
  with sub[of t1] sub[of t2] t1 t2 show "cells ((ps[t := p]) ! t1) \<inter> cells ((ps[t := p]) ! t2) = {}"
    by auto
qed

lemma interleaving_filter:
  "interleaving ps schedule \<Longrightarrow> disjoint_programs ps \<Longrightarrow>
   filter (\<lambda>a. cell a = c) schedule = filter (\<lambda>a. cell a = c) (concat ps)"
proof (induction rule: interleaving.induct)
  case (finished ps)
  then have e: "concat ps = []" by (induction ps) simp_all
  show ?case unfolding e by simp
next
  case (step t ps a p schedule)
  let ?f = "filter (\<lambda>a. cell a = c)"
  have dj: "disjoint_programs (ps[t := p])"
    using step.prems step.hyps(1,2) by (rule disjoint_programs_update)
  have ih: "?f schedule = ?f (concat (ps[t := p]))"
    using step.IH[OF dj] .
  have ps: "ps = take t ps @ (a # p) # drop (Suc t) ps"
    using step.hyps(1,2) by (metis id_take_nth_drop)
  have upd: "ps[t := p] = take t ps @ p # drop (Suc t) ps"
    using step.hyps(1) by (rule upd_conv_take_nth_drop)
  have whole: "?f (concat ps) =
      ?f (concat (take t ps)) @ ?f (a # p) @ ?f (concat (drop (Suc t) ps))"
    by (subst ps) simp
  have whole_upd: "?f (concat (ps[t := p])) =
      ?f (concat (take t ps)) @ ?f p @ ?f (concat (drop (Suc t) ps))"
    unfolding upd by simp
  show ?case
  proof (cases "cell a = c")
    case False
    then show ?thesis using ih whole whole_upd by simp
  next
    case True
    have c_in: "c \<in> cells (ps ! t)"
      using True step.hyps(2) by (auto simp: cells_def)
    have "?f q = []" if q: "q \<in> set (take t ps)" for q
    proof -
      from q obtain u where u: "u < t" "u < length ps" "q = ps ! u"
        using step.hyps(1) by (auto simp: in_set_conv_nth)
      then have "cells (ps ! u) \<inter> cells (ps ! t) = {}"
        using step.prems step.hyps(1) by (simp add: disjoint_programs_def)
      with c_in have "c \<notin> cells q" using u by auto
      then show ?thesis by (auto simp: cells_def filter_empty_conv)
    qed
    then have "?f (concat (take t ps)) = []"
      by (simp add: filter_concat)
    then show ?thesis using True ih whole whole_upd by simp
  qed
qed

subsection \<open>The result of a run, entry by entry\<close>

lemma cell_value_Cons:
  "cell_value c (a # actions) x =
     (if cell a = c then cell_value c actions (snd (snd a) x) else cell_value c actions x)"
  by (simp add: cell_value_def)

lemma run_actions_cells:
  assumes "\<forall>a \<in> set actions. fst (snd a) < n"
    and "length (left_statistics ss) = n" and "length (right_statistics ss) = n"
  shows "\<exists>ss'. run_actions actions ss = Inr ss'
      \<and> length (left_statistics ss') = n \<and> length (right_statistics ss') = n
      \<and> (\<forall>k < n. left_statistics ss' ! k = cell_value (LeftSide, k) actions (left_statistics ss ! k)
               \<and> right_statistics ss' ! k = cell_value (RightSide, k) actions (right_statistics ss ! k))"
  using assms
proof (induction actions arbitrary: ss)
  case Nil
  then show ?case by (simp add: cell_value_def)
next
  case (Cons a actions)
  obtain s k f where a: "a = (s, k, f)" by (cases a)
  from Cons.prems(1) a have k: "k < n" by simp
  have rest: "\<forall>b \<in> set actions. fst (snd b) < n" using Cons.prems(1) by simp
  show ?case
  proof (cases s)
    case LeftSide
    let ?ss1 = "ss\<lparr>left_statistics := (left_statistics ss)[k := f (left_statistics ss ! k)]\<rparr>"
    have ap: "apply_action a ss = Inr ?ss1"
      using a LeftSide k Cons.prems(2) by (simp add: apply_action_def update_left_statistics_def)
    have l1: "length (left_statistics ?ss1) = n" and r1: "length (right_statistics ?ss1) = n"
      using Cons.prems(2,3) by simp_all
    from Cons.IH[OF rest l1 r1] obtain ss' where
      run: "run_actions actions ?ss1 = Inr ss'" and
      ll: "length (left_statistics ss') = n" and rl: "length (right_statistics ss') = n" and
      vals: "\<forall>j < n. left_statistics ss' ! j = cell_value (LeftSide, j) actions (left_statistics ?ss1 ! j)
               \<and> right_statistics ss' ! j = cell_value (RightSide, j) actions (right_statistics ?ss1 ! j)"
      by blast
    have "\<forall>j < n. left_statistics ss' ! j = cell_value (LeftSide, j) (a # actions) (left_statistics ss ! j)
               \<and> right_statistics ss' ! j = cell_value (RightSide, j) (a # actions) (right_statistics ss ! j)"
      using vals a LeftSide Cons.prems(2)
      by (auto simp: cell_value_Cons cell_def nth_list_update)
    with ap run ll rl show ?thesis by simp
  next
    case RightSide
    let ?ss1 = "ss\<lparr>right_statistics := (right_statistics ss)[k := f (right_statistics ss ! k)]\<rparr>"
    have ap: "apply_action a ss = Inr ?ss1"
      using a RightSide k Cons.prems(3) by (simp add: apply_action_def update_right_statistics_def)
    have l1: "length (left_statistics ?ss1) = n" and r1: "length (right_statistics ?ss1) = n"
      using Cons.prems(2,3) by simp_all
    from Cons.IH[OF rest l1 r1] obtain ss' where
      run: "run_actions actions ?ss1 = Inr ss'" and
      ll: "length (left_statistics ss') = n" and rl: "length (right_statistics ss') = n" and
      vals: "\<forall>j < n. left_statistics ss' ! j = cell_value (LeftSide, j) actions (left_statistics ?ss1 ! j)
               \<and> right_statistics ss' ! j = cell_value (RightSide, j) actions (right_statistics ?ss1 ! j)"
      by blast
    have "\<forall>j < n. left_statistics ss' ! j = cell_value (LeftSide, j) (a # actions) (left_statistics ss ! j)
               \<and> right_statistics ss' ! j = cell_value (RightSide, j) (a # actions) (right_statistics ss ! j)"
      using vals a RightSide Cons.prems(3)
      by (auto simp: cell_value_Cons cell_def nth_list_update)
    with ap run ll rl show ?thesis by simp
  qed
qed

lemma run_actions_same_cells:
  assumes xs: "\<forall>a \<in> set xs. fst (snd a) < n" and ys: "\<forall>a \<in> set ys. fst (snd a) < n"
    and l: "length (left_statistics ss) = n" and r: "length (right_statistics ss) = n"
    and same: "\<And>c. filter (\<lambda>a. cell a = c) xs = filter (\<lambda>a. cell a = c) ys"
  shows "run_actions xs (ss :: 'st split_statistics) = run_actions ys ss"
proof -
  from run_actions_cells[OF xs l r] obtain sx where
    rx: "run_actions xs ss = Inr sx" and
    lx: "length (left_statistics sx) = n" and rlx: "length (right_statistics sx) = n" and
    vx: "\<forall>k < n. left_statistics sx ! k = cell_value (LeftSide, k) xs (left_statistics ss ! k)
               \<and> right_statistics sx ! k = cell_value (RightSide, k) xs (right_statistics ss ! k)"
    by blast
  from run_actions_cells[OF ys l r] obtain sy where
    ry: "run_actions ys ss = Inr sy" and
    ly: "length (left_statistics sy) = n" and rly: "length (right_statistics sy) = n" and
    vy: "\<forall>k < n. left_statistics sy ! k = cell_value (LeftSide, k) ys (left_statistics ss ! k)
               \<and> right_statistics sy ! k = cell_value (RightSide, k) ys (right_statistics ss ! k)"
    by blast
  have cv: "cell_value c xs x = cell_value c ys x" for c x
    by (simp add: cell_value_def same)
  have "left_statistics sx = left_statistics sy"
    using lx ly vx vy by (intro nth_equalityI) (simp_all add: cv)
  moreover have "right_statistics sx = right_statistics sy"
    using rlx rly vx vy by (intro nth_equalityI) (simp_all add: cv)
  ultimately have "sx = sy" by simp
  with rx ry show ?thesis by simp
qed

subsection \<open>The entries a thread touches\<close>

lemma sample_actions_index:
  "a \<in> set (sample_actions S sample v thresholds k) \<Longrightarrow>
   k \<le> fst (snd a) \<and> fst (snd a) < k + length thresholds"
proof (induction thresholds arbitrary: k)
  case Nil
  then show ?case by simp
next
  case (Cons t ts)
  from Cons.prems have "fst (snd a) = k \<or> a \<in> set (sample_actions S sample v ts (Suc k))"
    by auto
  then show ?case
  proof
    assume "fst (snd a) = k"
    then show ?thesis by simp
  next
    assume "a \<in> set (sample_actions S sample v ts (Suc k))"
    from Cons.IH[OF this] show ?thesis by simp
  qed
qed

lemma finish_actions_index:
  "a \<in> set (concat (map (\<lambda>threshold. [(LeftSide, offset, g), (RightSide, offset, g)]) thresholds))
   \<Longrightarrow> fst (snd a) = offset \<and> thresholds \<noteq> []"
  by (induction thresholds) auto

lemma feature_actions_index:
  assumes "a \<in> set (feature_actions S samples offset feature thresholds)"
  shows "offset \<le> fst (snd a) \<and> fst (snd a) < offset + length thresholds"
proof -
  let ?lazy = "concat (map (\<lambda>sample. sample_actions S sample (compute_pixel_difference feature sample)
                                      thresholds offset) samples)"
  let ?finish = "concat (map (\<lambda>threshold.
                      [(LeftSide, offset, finish_lazy_accumulation S),
                       (RightSide, offset, finish_lazy_accumulation S)]) thresholds)"
  from assms have "a \<in> set ?lazy \<or> a \<in> set ?finish"
    unfolding feature_actions_def by (simp only: set_append Un_iff)
  then show ?thesis
  proof
    assume "a \<in> set ?lazy"
    then obtain sample where
      "a \<in> set (sample_actions S sample (compute_pixel_difference feature sample) thresholds offset)"
      by auto
    then show ?thesis by (rule sample_actions_index)
  next
    assume "a \<in> set ?finish"
    from finish_actions_index[OF this] show ?thesis by simp
  qed
qed

lemma thread_actions_index:
  assumes "\<forall>c \<in> set cs. length (snd c) = m"
    and "\<forall>i \<in> set indices. i < length cs"
    and "a \<in> set (thread_actions S samples cs indices)"
  shows "\<exists>i \<in> set indices. i * m \<le> fst (snd a) \<and> fst (snd a) < i * m + m"
proof -
  from assms(3) obtain i where i: "i \<in> set indices" and
    a: "a \<in> set (feature_actions S samples (i * length (snd (cs ! i))) (fst (cs ! i)) (snd (cs ! i)))"
    by (auto simp: thread_actions_def)
  from i assms(2) have "cs ! i \<in> set cs" by simp
  with assms(1) have "length (snd (cs ! i)) = m" by blast
  with feature_actions_index[OF a] i show ?thesis by auto
qed

lemma shard_below:
  assumes "t < T" and "i \<in> set (shard F T t)"
  shows "i < F"
proof -
  have "(t + 1) * F div T \<le> T * F div T"
    using assms(1) by (intro div_le_mono mult_le_mono1) simp
  also have "\<dots> = F" using assms(1) by simp
  finally show ?thesis using assms(2) by (simp add: shard_def)
qed

lemma shard_ordered:
  assumes "t1 < t2" and "i1 \<in> set (shard F T t1)" and "i2 \<in> set (shard F T t2)"
  shows "i1 < i2"
proof -
  have "(t1 + 1) * F div T \<le> t2 * F div T"
    using assms(1) by (intro div_le_mono mult_le_mono1) simp
  with assms(2,3) show ?thesis by (simp add: shard_def)
qed

lemma shard_disjoint:
  assumes "t1 \<noteq> t2" and "i1 \<in> set (shard F T t1)" and "i2 \<in> set (shard F T t2)"
  shows "i1 \<noteq> i2"
proof (cases "t1 < t2")
  case True
  from shard_ordered[OF True assms(2,3)] show ?thesis by simp
next
  case False
  with assms(1) have "t2 < t1" by simp
  from shard_ordered[OF this assms(3,2)] show ?thesis by simp
qed

lemma same_block:
  assumes "i * m \<le> k" and "k < i * m + m" and "j * m \<le> k" and "k < j * m + m"
  shows "i = (j::nat)"
proof (rule ccontr)
  assume ne: "i \<noteq> j"
  have less: "False" if "a < b" "b * m \<le> k" "k < a * m + m" for a b :: nat
  proof -
    from that(1) have "Suc a * m \<le> b * m" by (intro mult_le_mono1) simp
    with that(2,3) show False by simp
  qed
  from ne consider "i < j" | "j < i" by linarith
  then show False
    using less[of i j] less[of j i] assms by cases simp_all
qed

lemma disjoint_thread_programs:
  assumes uniform: "\<forall>c \<in> set (candidates split_points). length (snd c) = m"
  shows "disjoint_programs (thread_programs S samples split_points T)"
  unfolding disjoint_programs_def
proof (intro allI impI)
  fix t1 t2
  let ?cs = "candidates split_points"
  let ?F = "length ?cs"
  let ?ps = "thread_programs S samples split_points T"
  assume "t1 < length ?ps" and "t2 < length ?ps" and ne: "t1 \<noteq> t2"
  then have t1: "t1 < T" and t2: "t2 < T" by (simp_all add: thread_programs_def)
  have p1: "?ps ! t1 = thread_actions S samples ?cs (shard ?F T t1)"
    and p2: "?ps ! t2 = thread_actions S samples ?cs (shard ?F T t2)"
    using t1 t2 by (simp_all add: thread_programs_def)
  have in1: "\<forall>i \<in> set (shard ?F T t1). i < ?F" using shard_below[OF t1] by blast
  have in2: "\<forall>i \<in> set (shard ?F T t2). i < ?F" using shard_below[OF t2] by blast
  show "cells (?ps ! t1) \<inter> cells (?ps ! t2) = {}"
  proof (rule ccontr)
    assume "cells (?ps ! t1) \<inter> cells (?ps ! t2) \<noteq> {}"
    then obtain c where "c \<in> cells (?ps ! t1)" and "c \<in> cells (?ps ! t2)"
      by blast
    then obtain a b where a: "a \<in> set (?ps ! t1)" and b: "b \<in> set (?ps ! t2)"
      and ab: "cell a = cell b"
      unfolding cells_def by force
    from thread_actions_index[OF uniform in1 a[unfolded p1]] obtain i1 where
      i1: "i1 \<in> set (shard ?F T t1)" "i1 * m \<le> fst (snd a)" "fst (snd a) < i1 * m + m"
      by blast
    from thread_actions_index[OF uniform in2 b[unfolded p2]] obtain i2 where
      i2: "i2 \<in> set (shard ?F T t2)" "i2 * m \<le> fst (snd b)" "fst (snd b) < i2 * m + m"
      by blast
    from ab have "fst (snd a) = fst (snd b)" by (simp add: cell_def)
    with i1 i2 have "i1 = i2" by (intro same_block[of i1 m "fst (snd a)" i2]) simp_all
    with shard_disjoint[OF ne i1(1) i2(1)] show False by simp
  qed
qed

lemma thread_programs_in_range:
  assumes uniform: "\<forall>c \<in> set (candidates split_points). length (snd c) = m"
    and p: "p \<in> set (thread_programs S samples split_points T)" and a: "a \<in> set p"
  shows "fst (snd a) < length (candidates split_points) * m"
proof -
  let ?cs = "candidates split_points"
  let ?F = "length ?cs"
  from p obtain t where t: "t < T" and pt: "p = thread_actions S samples ?cs (shard ?F T t)"
    by (auto simp: thread_programs_def)
  have inr: "\<forall>i \<in> set (shard ?F T t). i < ?F" using shard_below[OF t] by blast
  from thread_actions_index[OF uniform inr a[unfolded pt]] obtain i where
    i: "i \<in> set (shard ?F T t)" "fst (snd a) < i * m + m"
    by blast
  from inr i(1) have "Suc i \<le> ?F" by (simp add: Suc_le_eq)
  then have "Suc i * m \<le> ?F * m" by (rule mult_le_mono1)
  with i(2) show ?thesis by simp
qed

subsection \<open>Every schedule gives the serial result\<close>

lemma schedule_result:
  assumes uniform: "\<forall>c \<in> set (candidates split_points). length (snd c) = m"
    and total: "total_size split_points = length (candidates split_points) * m"
    and T: "1 \<le> T"
    and il: "interleaving (thread_programs S samples split_points T) schedule"
  shows "run_actions schedule (new_split_statistics (total_size split_points) S) =
           compute_split_statistics S samples split_points"
proof -
  let ?ps = "thread_programs S samples split_points T"
  let ?n = "total_size split_points"
  let ?init = "new_split_statistics ?n S"
  have range: "\<forall>p \<in> set ?ps. \<forall>a \<in> set p. fst (snd a) < ?n"
  proof (intro ballI)
    fix p a assume "p \<in> set ?ps" and "a \<in> set p"
    from thread_programs_in_range[OF uniform this] total show "fst (snd a) < ?n" by simp
  qed
  have xs: "\<forall>a \<in> set schedule. fst (snd a) < ?n"
    using il range by (rule interleaving_all)
  have ys: "\<forall>a \<in> set (concat ?ps). fst (snd a) < ?n"
    using range by auto
  have dj: "disjoint_programs ?ps"
    using uniform by (rule disjoint_thread_programs)
  have same: "filter (\<lambda>a. cell a = c) schedule = filter (\<lambda>a. cell a = c) (concat ?ps)" for c
    using il dj by (rule interleaving_filter)
  have l: "length (left_statistics ?init) = ?n" and r: "length (right_statistics ?init) = ?n"
    by (simp_all add: new_split_statistics_def)
  have "run_actions schedule ?init = run_actions (concat ?ps) ?init"
    using xs ys l r same by (rule run_actions_same_cells)
  also have "\<dots> = compute_split_statistics S samples split_points"
    using T by (simp add: concat_thread_programs compute_split_statistics_as_actions)
  finally show ?thesis .
qed

text \<open>
  C3, as the code has it: for every sample list, every thread count of at least 1 and
  every candidate set in which all features have the same number of thresholds and
  \<^verbatim>\<open>total_size\<close> is that number times the number of features (the sets that
  \<^verbatim>\<open>sample_split_points\<close> returns), the shards \<open>[floor (t F / T), floor ((t + 1) F / T))\<close>
  partition the feature list, no entry of the statistics arrays is touched by two
  threads, and \<^verbatim>\<open>compute_split_statistics_parallel\<close> returns, under every schedule of
  its threads, the result of the serial \<^verbatim>\<open>compute_split_statistics\<close>.
\<close>

theorem compute_split_statistics_parallel_serial:
  assumes "\<forall>c \<in> set (candidates split_points). length (snd c) = m"
    and "total_size split_points = length (candidates split_points) * m"
    and "1 \<le> threads"
  shows "concat (map (shard (length (candidates split_points)) (nat threads)) [0..<nat threads])
           = [0..<length (candidates split_points)]
    \<and> disjoint_programs (thread_programs S samples split_points (nat threads))
    \<and> set (compute_split_statistics_parallel S hardware_concurrency samples split_points threads)
        = {compute_split_statistics S samples split_points}"
proof -
  let ?T = "nat threads"
  let ?ps = "thread_programs S samples split_points ?T"
  let ?init = "new_split_statistics (total_size split_points) S"
  have T: "1 \<le> ?T" using assms(3) by simp
  have pos: "\<not> threads \<le> 0" using assms(3) by simp
  have a: "concat (map (shard (length (candidates split_points)) ?T) [0..<?T])
             = [0..<length (candidates split_points)]"
    using T by (rule shards_partition)
  have b: "disjoint_programs ?ps"
    using assms(1) by (rule disjoint_thread_programs)
  have all: "run_actions schedule ?init = compute_split_statistics S samples split_points"
    if "interleaving ?ps schedule" for schedule
    using assms(1,2) T that by (rule schedule_result)
  have results: "set (compute_split_statistics_parallel S hardware_concurrency samples split_points threads)
      = (\<lambda>schedule. run_actions schedule ?init) ` {schedule. interleaving ?ps schedule}"
    using pos by (auto simp: compute_split_statistics_parallel_def Let_def interleavings_iff)
  have "interleaving ?ps (concat ?ps)" by (rule interleaving_concat)
  then have "{schedule. interleaving ?ps schedule} \<noteq> {}" by blast
  with all have "(\<lambda>schedule. run_actions schedule ?init) ` {schedule. interleaving ?ps schedule}
      = {compute_split_statistics S samples split_points}"
    by auto
  with results have c: "set (compute_split_statistics_parallel S hardware_concurrency samples
      split_points threads) = {compute_split_statistics S samples split_points}"
    by simp
  from a b c show ?thesis by blast
qed

theorem compute_split_statistics_parallel_serial_witness:
  "disjoint_programs (thread_programs histogram_statistics_type [one_pixel_sample] two_feature_candidates 2)
   \<and> concat (map (shard 2 2) [0..<2]) = [0..<2]
   \<and> set (compute_split_statistics_parallel histogram_statistics_type 4 [one_pixel_sample]
            two_feature_candidates 2)
       = {compute_split_statistics histogram_statistics_type [one_pixel_sample] two_feature_candidates}"
proof -
  have 1: "\<forall>c \<in> set (candidates two_feature_candidates). length (snd c) = 2"
    by (simp add: two_feature_candidates_def add_feature_and_thresholds_def empty_candidates_def)
  have 2: "total_size two_feature_candidates = length (candidates two_feature_candidates) * 2"
    by (simp add: two_feature_candidates_def add_feature_and_thresholds_def empty_candidates_def)
  have 3: "(1::int) \<le> 2" by simp
  have l: "length (candidates two_feature_candidates) = 2"
    by (simp add: two_feature_candidates_def add_feature_and_thresholds_def empty_candidates_def)
  from compute_split_statistics_parallel_serial[OF 1 2 3,
      of histogram_statistics_type "[one_pixel_sample]" 4]
  show ?thesis by (simp add: l)
qed

subsection \<open>Candidate sets with features of different numbers of thresholds\<close>

lemma interleaving_second_first: "interleaving [p, q] (q @ p)"
proof (induction q)
  case Nil
  show ?case using interleaving_concat[of "[p, []]"] by simp
next
  case (Cons a q)
  have "interleaving ([p, a # q][1 := q]) (q @ p)" using Cons by simp
  from interleaving.step[of 1 "[p, a # q]" a q, OF _ _ this] show ?case by simp
qed

lemma ragged_candidates_fields:
  "candidates ragged_candidates = [(zero_feature, [- (1 / 2), 1 / 2]), (zero_feature, [1 / 2])]"
  "total_size ragged_candidates = 3"
  by (simp_all add: ragged_candidates_def add_feature_and_thresholds_def empty_candidates_def)

lemma ragged_thread_programs:
  "thread_programs S samples ragged_candidates 2 =
     [thread_actions S samples (candidates ragged_candidates) [0],
      thread_actions S samples (candidates ragged_candidates) [1]]"
proof -
  have u: "[0..<2::nat] = [0, 1]" by (simp add: upt_rec)
  have s0: "shard 2 2 0 = [0]" and s1: "shard 2 2 (Suc 0) = [Suc 0]"
    by (simp_all add: shard_def upt_rec)
  have l: "length (candidates ragged_candidates) = 2"
    by (simp add: ragged_candidates_fields)
  show ?thesis
    unfolding thread_programs_def l u by (simp add: s0 s1)
qed

lemma one_pixel_zero_feature:
  "compute_pixel_difference zero_feature one_pixel_sample = 0"
  "get_label one_pixel_sample = 5"
  by (simp_all add: compute_pixel_difference_def compute_pixel_value_def zero_feature_def
      one_pixel_sample_def one_pixel_image_def get_label_def)

lemma ragged_serial:
  "\<exists>ss. compute_split_statistics histogram_statistics_type [one_pixel_sample] ragged_candidates = Inr ss
     \<and> num_of_samples (left_statistics ss ! 1) = 2"
  by (simp add: compute_split_statistics_def compute_split_statistics_feature_def
      ragged_candidates_fields new_split_statistics_def one_pixel_zero_feature
      update_left_statistics_def update_right_statistics_def left_direction_def
      histogram_statistics_type_def histogram_create_def histogram_lazy_accumulate_def
      histogram_finish_lazy_accumulation_def accumulate_label_def Let_def numeral_3_eq_3)

lemma ragged_second_first:
  "\<exists>ss. run_actions
          (thread_actions histogram_statistics_type [one_pixel_sample] (candidates ragged_candidates) [1]
           @ thread_actions histogram_statistics_type [one_pixel_sample] (candidates ragged_candidates) [0])
          (new_split_statistics (total_size ragged_candidates) histogram_statistics_type) = Inr ss
     \<and> num_of_samples (left_statistics ss ! 1) = 1"
proof -
  have r0: "\<forall>i \<in> set [0::nat]. i < length (candidates ragged_candidates)"
    and r1: "\<forall>i \<in> set [1::nat]. i < length (candidates ragged_candidates)"
    by (simp_all add: ragged_candidates_fields)
  show ?thesis
    unfolding run_actions_append run_thread_actions[OF r1] run_thread_actions[OF r0]
    by (simp add: compute_split_statistics_feature_def
      ragged_candidates_fields new_split_statistics_def one_pixel_zero_feature
      update_left_statistics_def update_right_statistics_def left_direction_def
      histogram_statistics_type_def histogram_create_def histogram_lazy_accumulate_def
      histogram_finish_lazy_accumulation_def accumulate_label_def Let_def numeral_3_eq_3)
qed

text \<open>
  C3, as stated, holds for every candidate set. For a candidate set whose first
  feature has two thresholds and whose second has one, the offsets \<open>0 * 2\<close> and \<open>1 * 1\<close>
  make both features write entry 1, so with two threads the shards do not write
  disjoint slices; and when the second thread finishes entry 1 before the first thread
  accumulates into it, \<open>left[1]\<close> reports one sample where the serial run reports two.
\<close>

theorem ragged_candidates_shards_overlap:
  "\<not> disjoint_programs (thread_programs histogram_statistics_type [one_pixel_sample] ragged_candidates 2)
   \<and> (\<exists>ss. compute_split_statistics histogram_statistics_type [one_pixel_sample] ragged_candidates = Inr ss
          \<and> num_of_samples (left_statistics ss ! 1) = 2)
   \<and> (\<exists>ss. Inr ss \<in> set (compute_split_statistics_parallel histogram_statistics_type 4
                             [one_pixel_sample] ragged_candidates 2)
          \<and> num_of_samples (left_statistics ss ! 1) = 1)
   \<and> set (compute_split_statistics_parallel histogram_statistics_type 4 [one_pixel_sample]
            ragged_candidates 2)
       \<noteq> {compute_split_statistics histogram_statistics_type [one_pixel_sample] ragged_candidates}"
proof -
  let ?S = "histogram_statistics_type"
  let ?p0 = "thread_actions ?S [one_pixel_sample] (candidates ragged_candidates) [0]"
  let ?p1 = "thread_actions ?S [one_pixel_sample] (candidates ragged_candidates) [1]"
  have in0: "(LeftSide, 1) \<in> cells ?p0"
    by (simp add: cells_def cell_def thread_actions_def feature_actions_def
        ragged_candidates_fields one_pixel_zero_feature left_direction_def image_iff)
  have in1: "(LeftSide, 1) \<in> cells ?p1"
    by (simp add: cells_def cell_def thread_actions_def feature_actions_def
        ragged_candidates_fields one_pixel_zero_feature left_direction_def image_iff)
  have a: "\<not> disjoint_programs (thread_programs ?S [one_pixel_sample] ragged_candidates 2)"
  proof
    assume "disjoint_programs (thread_programs ?S [one_pixel_sample] ragged_candidates 2)"
    then have "\<forall>t1 < length [?p0, ?p1]. \<forall>t2 < length [?p0, ?p1].
                 t1 \<noteq> t2 \<longrightarrow> cells ([?p0, ?p1] ! t1) \<inter> cells ([?p0, ?p1] ! t2) = {}"
      unfolding ragged_thread_programs disjoint_programs_def .
    from this[rule_format, of 0 1] have "cells ?p0 \<inter> cells ?p1 = {}"
      by simp
    with in0 in1 show False by blast
  qed
  from ragged_serial obtain s where
    s: "compute_split_statistics ?S [one_pixel_sample] ragged_candidates = Inr s"
       "num_of_samples (left_statistics s ! 1) = 2"
    by blast
  from ragged_second_first obtain ss where
    run: "run_actions (?p1 @ ?p0) (new_split_statistics (total_size ragged_candidates) ?S) = Inr ss"
    and one: "num_of_samples (left_statistics ss ! 1) = 1"
    by blast
  have "interleaving (thread_programs ?S [one_pixel_sample] ragged_candidates 2) (?p1 @ ?p0)"
    unfolding ragged_thread_programs by (rule interleaving_second_first)
  then have "?p1 @ ?p0 \<in> set (interleavings (thread_programs ?S [one_pixel_sample] ragged_candidates 2))"
    by (rule interleavings_complete)
  then have "run_actions (?p1 @ ?p0) (new_split_statistics (total_size ragged_candidates) ?S)
      \<in> set (compute_split_statistics_parallel ?S 4 [one_pixel_sample] ragged_candidates 2)"
    unfolding compute_split_statistics_parallel_def Let_def by (simp only: set_map) simp
  with run have par: "Inr ss \<in> set (compute_split_statistics_parallel ?S 4 [one_pixel_sample]
                                     ragged_candidates 2)"
    by simp
  have ne: "Inr ss \<noteq> compute_split_statistics ?S [one_pixel_sample] ragged_candidates"
    using s one by auto
  from par ne have d: "set (compute_split_statistics_parallel ?S 4 [one_pixel_sample] ragged_candidates 2)
      \<noteq> {compute_split_statistics ?S [one_pixel_sample] ragged_candidates}"
    by blast
  from a s par one d show ?thesis by blast
qed

end
